theory Spec2Isabelle
  imports Complex_Main "HOL-Library.Word" "HOL-Library.AList"
begin

section \<open>CFILE: a columnar container, its writer and its reader\<close>

text \<open>
  The development embeds \<^verbatim>\<open>src/writer.py\<close> and \<^verbatim>\<open>src/reader.py\<close>.
  A Python \<^verbatim>\<open>str\<close> is a \<^typ>\<open>string\<close> holding its UTF-8 encoding (the code never
  counts code points, only encoded bytes), a Python \<^verbatim>\<open>bytes\<close> is a list of 8-bit words,
  and a file is the list of its bytes. Every exception the code can raise is a value of
  \<open>error\<close>, and a function that can raise returns \<open>error + 'a\<close>.
\<close>

subsection \<open>Bytes, strings and errors\<close>

type_synonym byte = "8 word"
type_synonym bytes = "byte list"

text \<open>A double is carried as its IEEE-754 bit pattern.\<close>

type_synonym float64 = "64 word"

datatype error =
    ValueError string
  | StructError
  | UnicodeDecodeError
  | JSONDecodeError
  | ZlibError
  | OverflowError
  | KeyError
  | IndexError
  | StopIteration

definition bindr :: "error + 'a \<Rightarrow> ('a \<Rightarrow> error + 'b) \<Rightarrow> error + 'b" where
  "bindr m f = (case m of Inl e \<Rightarrow> Inl e | Inr x \<Rightarrow> f x)"

text \<open>A \<^verbatim>\<open>for\<close> loop that appends one result per element and stops at the first exception.\<close>

fun map_result :: "('a \<Rightarrow> error + 'b) \<Rightarrow> 'a list \<Rightarrow> error + 'b list" where
  "map_result f [] = Inr []"
| "map_result f (x # xs) =
     (case f x of
        Inl e \<Rightarrow> Inl e
      | Inr y \<Rightarrow> (case map_result f xs of Inl e \<Rightarrow> Inl e | Inr ys \<Rightarrow> Inr (y # ys)))"

definition byte_of_char :: "char \<Rightarrow> byte" where
  "byte_of_char c = of_nat (of_char c)"

definition char_of_byte :: "byte \<Rightarrow> char" where
  "char_of_byte b = char_of (unat b)"

text \<open>\<^verbatim>\<open>s.encode("utf-8")\<close>: the string already is its encoding.\<close>

definition utf8_encode :: "string \<Rightarrow> bytes" where
  "utf8_encode s = map byte_of_char s"

definition cont_byte :: "nat \<Rightarrow> bool" where
  "cont_byte b = (128 \<le> b \<and> b \<le> 191)"

text \<open>Well-formed UTF-8 byte sequences (no overlong forms, no surrogates, at most U+10FFFF),
  which is what Python's strict decoder accepts.\<close>

fun utf8_valid :: "nat list \<Rightarrow> bool" where
  "utf8_valid [] = True"
| "utf8_valid (b0 # bs) =
     (if b0 < 128 then utf8_valid bs
      else if 194 \<le> b0 \<and> b0 \<le> 223 then
        (case bs of
           b1 # r \<Rightarrow> cont_byte b1 \<and> utf8_valid r
         | _ \<Rightarrow> False)
      else if 224 \<le> b0 \<and> b0 \<le> 239 then
        (case bs of
           b1 # b2 # r \<Rightarrow>
             (if b0 = 224 then 160 \<le> b1 \<and> b1 \<le> 191
              else if b0 = 237 then 128 \<le> b1 \<and> b1 \<le> 159
              else cont_byte b1) \<and> cont_byte b2 \<and> utf8_valid r
         | _ \<Rightarrow> False)
      else if 240 \<le> b0 \<and> b0 \<le> 244 then
        (case bs of
           b1 # b2 # b3 # r \<Rightarrow>
             (if b0 = 240 then 144 \<le> b1 \<and> b1 \<le> 191
              else if b0 = 244 then 128 \<le> b1 \<and> b1 \<le> 143
              else cont_byte b1) \<and> cont_byte b2 \<and> cont_byte b3 \<and> utf8_valid r
         | _ \<Rightarrow> False)
      else False)"

text \<open>\<^verbatim>\<open>b.decode("utf-8")\<close> raises \<^verbatim>\<open>UnicodeDecodeError\<close> on malformed input.\<close>

definition utf8_decode :: "bytes \<Rightarrow> error + string" where
  "utf8_decode b =
     (if utf8_valid (map unat b) then Inr (map char_of_byte b) else Inl UnicodeDecodeError)"

text \<open>The representation invariant of a Python \<^verbatim>\<open>str\<close> in this model.\<close>

definition is_str :: "string \<Rightarrow> bool" where
  "is_str s = utf8_valid (map of_char s)"

subsection \<open>The collaborators outside the repository\<close>

text \<open>
  The code calls \<^verbatim>\<open>zlib\<close>, \<^verbatim>\<open>json\<close> and the builtins \<^verbatim>\<open>int\<close> and \<^verbatim>\<open>float\<close>.
  They are not code of the repository, so the embedding takes them as parameters:
  \<open>None\<close> stands for the call raising.
\<close>

type_synonym column_def = "string \<times> string"

record externals =
  zlib_compress :: "bytes \<Rightarrow> bytes"
  zlib_decompress :: "bytes \<Rightarrow> bytes option"
  py_int :: "string \<Rightarrow> int option"
  py_float :: "string \<Rightarrow> float64 option"
  json_dumps :: "column_def list \<Rightarrow> string"
  json_loads :: "string \<Rightarrow> column_def list option"

subsection \<open>Type inference and CSV ingestion (writer.py)\<close>

definition DT_INT32 :: nat where "DT_INT32 = 0"
definition DT_FLOAT64 :: nat where "DT_FLOAT64 = 1"
definition DT_STRING :: nat where "DT_STRING = 2"

definition infer_type :: "externals \<Rightarrow> string \<Rightarrow> nat" where
  "infer_type ext v =
     (if v = '''' then DT_STRING
      else (case py_int ext v of
              Some _ \<Rightarrow> DT_INT32
            | None \<Rightarrow> (case py_float ext v of
                         Some _ \<Rightarrow> DT_FLOAT64
                       | None \<Rightarrow> DT_STRING)))"

text \<open>The dictionary \<^verbatim>\<open>{0: "INT32", 1: "FLOAT64", 2: "STRING"}\<close>.\<close>

definition typename :: "nat \<Rightarrow> error + string" where
  "typename d =
     (if d = 0 then Inr ''INT32'' else if d = 1 then Inr ''FLOAT64''
      else if d = 2 then Inr ''STRING'' else Inl KeyError)"

text \<open>
  A CSV source is the list of rows that \<^verbatim>\<open>csv.reader\<close> yields; \<^verbatim>\<open>next(rdr)\<close> on an
  exhausted reader raises \<^verbatim>\<open>StopIteration\<close>, \<^verbatim>\<open>next(rdr, None)\<close> does not.
\<close>

definition infer_schema_from_csv :: "externals \<Rightarrow> string list list \<Rightarrow> error + column_def list" where
  "infer_schema_from_csv ext src =
     (case src of
        [] \<Rightarrow> Inl StopIteration
      | header # rest \<Rightarrow>
          (case rest of
             [] \<Rightarrow> Inr (map (\<lambda>n. (n, ''STRING'')) header)
           | sample_row # _ \<Rightarrow>
               map_result
                 (\<lambda>(name, sample). bindr (typename (infer_type ext sample)) (\<lambda>t. Inr (name, t)))
                 (zip header sample_row)))"

definition append_row :: "nat \<Rightarrow> string list list \<Rightarrow> string list \<Rightarrow> string list list" where
  "append_row n cols row =
     (let row' = row @ replicate (n - length row) ''''
      in fold (\<lambda>(i, v) cs. cs[i := cs ! i @ [v]]) (enumerate 0 (take n row')) cols)"

definition read_csv_columns ::
  "string list list \<Rightarrow> column_def list \<Rightarrow> error + (string list \<times> string list list)" where
  "read_csv_columns src schema =
     (case src of
        [] \<Rightarrow> Inl StopIteration
      | header # rest \<Rightarrow>
          Inr (header, foldl (append_row (length header)) (replicate (length header) []) rest))"

subsection \<open>The \<^verbatim>\<open>struct\<close> formats used by the code\<close>

text \<open>Little-endian unsigned integers of \<open>k\<close> bytes.\<close>

fun le_bytes :: "nat \<Rightarrow> nat \<Rightarrow> bytes" where
  "le_bytes 0 n = []"
| "le_bytes (Suc k) n = of_nat (n mod 256) # le_bytes k (n div 256)"

fun le_nat :: "bytes \<Rightarrow> nat" where
  "le_nat [] = 0"
| "le_nat (b # bs) = unat b + 256 * le_nat bs"

text \<open>\<^verbatim>\<open>struct.pack\<close> raises \<^verbatim>\<open>struct.error\<close> when the argument is out of the format's range.\<close>

definition pack_unsigned :: "nat \<Rightarrow> nat \<Rightarrow> error + bytes" where
  "pack_unsigned k v = (if v < 256 ^ k then Inr (le_bytes k v) else Inl StructError)"

definition pack_u8 :: "nat \<Rightarrow> error + bytes" where "pack_u8 v = pack_unsigned 1 v"
definition pack_u16 :: "nat \<Rightarrow> error + bytes" where "pack_u16 v = pack_unsigned 2 v"
definition pack_u32 :: "nat \<Rightarrow> error + bytes" where "pack_u32 v = pack_unsigned 4 v"
definition pack_u64 :: "nat \<Rightarrow> error + bytes" where "pack_u64 v = pack_unsigned 8 v"

text \<open>\<^verbatim>\<open>struct.pack("<i", v)\<close>: two's complement, 32 bits.\<close>

definition pack_i32 :: "int \<Rightarrow> error + bytes" where
  "pack_i32 v =
     (if - (2 ^ 31) \<le> v \<and> v < 2 ^ 31 then Inr (le_bytes 4 (nat (v mod 2 ^ 32)))
      else Inl StructError)"

text \<open>\<^verbatim>\<open>struct.pack("<d", f)\<close>: the eight bytes of the bit pattern.\<close>

definition pack_f64 :: "float64 \<Rightarrow> bytes" where
  "pack_f64 f = le_bytes 8 (unat f)"

text \<open>\<^verbatim>\<open>struct.unpack(fmt, b)\<close> raises \<^verbatim>\<open>struct.error\<close> unless \<open>b\<close> has the format's size.\<close>

definition unpack_unsigned :: "nat \<Rightarrow> bytes \<Rightarrow> error + nat" where
  "unpack_unsigned k b = (if length b = k then Inr (le_nat b) else Inl StructError)"

text \<open>\<^verbatim>\<open>struct.unpack_from(fmt, data, off)\<close> raises unless \<open>k\<close> bytes are there at \<open>off\<close>.\<close>

definition unpack_from :: "nat \<Rightarrow> bytes \<Rightarrow> nat \<Rightarrow> error + nat" where
  "unpack_from k data off =
     (if off + k \<le> length data then Inr (le_nat (take k (drop off data))) else Inl StructError)"

definition signed32 :: "nat \<Rightarrow> int" where
  "signed32 u = (if u < 2 ^ 31 then int u else int u - 2 ^ 32)"

text \<open>
  \<^verbatim>\<open>int(f)\<close> for a double \<open>f\<close>: truncation towards zero, \<^verbatim>\<open>OverflowError\<close> for an
  infinity and \<^verbatim>\<open>ValueError\<close> for a NaN. The bit pattern is sign (1 bit), biased
  exponent (11 bits) and fraction (52 bits).
\<close>

definition float_sign :: "float64 \<Rightarrow> nat" where "float_sign f = unat f div 2 ^ 63"
definition float_exponent :: "float64 \<Rightarrow> nat" where "float_exponent f = (unat f div 2 ^ 52) mod 2048"
definition float_fraction :: "float64 \<Rightarrow> nat" where "float_fraction f = unat f mod 2 ^ 52"

definition float_magnitude_trunc :: "float64 \<Rightarrow> nat" where
  "float_magnitude_trunc f =
     (let e = float_exponent f; m = float_fraction f
      in if e = 0 then 0
         else if 1075 \<le> e then (2 ^ 52 + m) * 2 ^ (e - 1075)
         else (2 ^ 52 + m) div 2 ^ (1075 - e))"

definition float_to_int :: "float64 \<Rightarrow> error + int" where
  "float_to_int f =
     (if float_exponent f = 2047 then
        (if float_fraction f = 0 then Inl OverflowError
         else Inl (ValueError ''cannot convert float NaN to integer''))
      else Inr (if float_sign f = 1 then - int (float_magnitude_trunc f)
                else int (float_magnitude_trunc f)))"



subsection \<open>Column encoder (writer.py, \<^verbatim>\<open>build_uncompressed_block\<close>)\<close>

text \<open>\<^verbatim>\<open>float(v)\<close> raises \<^verbatim>\<open>ValueError\<close> on a string that is not a number.\<close>

definition float_of_str :: "externals \<Rightarrow> string \<Rightarrow> error + float64" where
  "float_of_str ext v =
     (case py_float ext v of
        None \<Rightarrow> Inl (ValueError ''could not convert string to float'')
      | Some f \<Rightarrow> Inr f)"

definition int32_value :: "externals \<Rightarrow> string \<Rightarrow> error + int" where
  "int32_value ext v =
     (if v = '''' then Inr 0 else bindr (float_of_str ext v) float_to_int)"

definition float64_value :: "externals \<Rightarrow> string \<Rightarrow> error + float64" where
  "float64_value ext v = (if v = '''' then Inr 0 else float_of_str ext v)"

text \<open>The offsets loop of the STRING branch: one offset before each value, one after the last.\<close>

fun string_offsets :: "nat \<Rightarrow> string list \<Rightarrow> nat list" where
  "string_offsets cur [] = [cur]"
| "string_offsets cur (v # vs) = cur # string_offsets (cur + length (utf8_encode v)) vs"

definition build_uncompressed_block :: "externals \<Rightarrow> string \<Rightarrow> string list \<Rightarrow> error + bytes" where
  "build_uncompressed_block ext col_type vals =
     (if col_type = ''INT32'' then
        bindr (map_result (\<lambda>v. bindr (int32_value ext v) pack_i32) vals) (\<lambda>bs. Inr (concat bs))
      else if col_type = ''FLOAT64'' then
        bindr (map_result (\<lambda>v. bindr (float64_value ext v) (\<lambda>f. Inr (pack_f64 f))) vals)
          (\<lambda>bs. Inr (concat bs))
      else if col_type = ''STRING'' then
        (let string_bytes = concat (map utf8_encode vals);
             offsets = string_offsets 0 vals
         in bindr (map_result pack_u32 offsets) (\<lambda>off_b. Inr (concat off_b @ string_bytes)))
      else Inl (ValueError ''Unknown type''))"

subsection \<open>Layout and serialisation (writer.py, \<^verbatim>\<open>write_cfile\<close>)\<close>

definition MAGIC :: string where "MAGIC = ''CFILEv01''"
definition VERSION :: nat where "VERSION = 1"
definition ENDIANNESS :: nat where "ENDIANNESS = 0"
definition RESERVED :: nat where "RESERVED = 0"

definition pad_magic :: "bytes \<Rightarrow> bytes" where
  "pad_magic magic_bytes = take 8 (magic_bytes @ replicate (8 - length magic_bytes) 0)"

text \<open>The dictionary \<^verbatim>\<open>{"INT32":0,"FLOAT64":1,"STRING":2}\<close>; a missing key raises.\<close>

definition dtype_tag :: "string \<Rightarrow> error + nat" where
  "dtype_tag t =
     (if t = ''INT32'' then Inr 0 else if t = ''FLOAT64'' then Inr 1
      else if t = ''STRING'' then Inr 2 else Inl KeyError)"

text \<open>A run of \<^verbatim>\<open>h += ...\<close> statements: the pieces in order, the first exception wins.\<close>

fun cat_results :: "(error + bytes) list \<Rightarrow> error + bytes" where
  "cat_results [] = Inr []"
| "cat_results (r # rs) =
     (case r of
        Inl e \<Rightarrow> Inl e
      | Inr b \<Rightarrow> (case cat_results rs of Inl e \<Rightarrow> Inl e | Inr bs \<Rightarrow> Inr (b @ bs)))"

text \<open>\<^verbatim>\<open>xs[i]\<close> raises \<^verbatim>\<open>IndexError\<close> out of range (the code only uses indices from 0).\<close>

definition nth_result :: "'a list \<Rightarrow> nat \<Rightarrow> error + 'a" where
  "nth_result xs i = (if i < length xs then Inr (xs ! i) else Inl IndexError)"

definition header_fixed :: "bytes \<Rightarrow> nat \<Rightarrow> nat \<Rightarrow> error + bytes" where
  "header_fixed schema_json nrows ncols =
     cat_results
       [Inr (pad_magic (utf8_encode MAGIC)), pack_u8 VERSION, pack_u8 ENDIANNESS,
        pack_u16 RESERVED, pack_u32 (length schema_json), Inr schema_json,
        pack_u64 nrows, pack_u32 ncols]"

text \<open>One directory entry; the three layout fields come as results because the second pass
  indexes lists (\<^verbatim>\<open>offsets[i]\<close>, \<^verbatim>\<open>col_compressed[i]\<close>, \<^verbatim>\<open>col_uncompressed[i]\<close>).\<close>

definition dir_entry ::
  "column_def \<Rightarrow> error + nat \<Rightarrow> error + nat \<Rightarrow> error + nat \<Rightarrow> nat \<Rightarrow> error + bytes" where
  "dir_entry col_meta off csize usize nrows =
     (let name_b = utf8_encode (fst col_meta)
      in cat_results
           [pack_u16 (length name_b), Inr name_b,
            bindr (dtype_tag (snd col_meta)) pack_u8,
            bindr off pack_u64, bindr csize pack_u64, bindr usize pack_u64,
            pack_u64 nrows])"

text \<open>The offsets loop: each block starts where the previous one ends, rounded up to 8.\<close>

fun plan_offsets :: "nat \<Rightarrow> bytes list \<Rightarrow> nat list" where
  "plan_offsets cur [] = []"
| "plan_offsets cur (cblk # comps) =
     cur # plan_offsets
             (let cur' = cur + length cblk
              in if cur' mod 8 \<noteq> 0 then cur' + (8 - cur' mod 8) else cur')
             comps"

text \<open>The block loop; \<open>pos\<close> is \<^verbatim>\<open>fh.tell()\<close> before the block is written.\<close>

fun write_blocks :: "nat \<Rightarrow> bytes list \<Rightarrow> bytes" where
  "write_blocks pos [] = []"
| "write_blocks pos (cblk # comps) =
     (let curpos = pos + length cblk;
          padb = (8 - curpos mod 8) mod 8
      in cblk @ replicate padb 0 @ write_blocks (curpos + padb) comps)"

definition write_cfile ::
  "externals \<Rightarrow> column_def list \<Rightarrow> string list \<Rightarrow> string list list \<Rightarrow> error + bytes" where
  "write_cfile ext schema header_names cols =
     bindr (nth_result cols 0) (\<lambda>col0.
       let nrows = length col0;
           ncols = length schema;
           schema_json = utf8_encode (json_dumps ext schema)
       in bindr (map_result (\<lambda>(col_meta, vals). build_uncompressed_block ext (snd col_meta) vals)
                   (zip schema cols)) (\<lambda>col_uncompressed.
          let col_compressed = map (zlib_compress ext) col_uncompressed
          in bindr (cat_results
                      (header_fixed schema_json nrows ncols
                       # map (\<lambda>col_meta. dir_entry col_meta (Inr 0) (Inr 0) (Inr 0) nrows) schema))
               (\<lambda>header.
          let header_len = length header;
              pad = (8 - header_len mod 8) mod 8;
              start_blocks = header_len + pad;
              offsets = plan_offsets start_blocks col_compressed
          in bindr (cat_results
                      (header_fixed schema_json nrows ncols
                       # map (\<lambda>(i, col_meta).
                                dir_entry col_meta (nth_result offsets i)
                                  (bindr (nth_result col_compressed i) (\<lambda>c. Inr (length c)))
                                  (bindr (nth_result col_uncompressed i) (\<lambda>u. Inr (length u)))
                                  nrows)
                           (enumerate 0 schema)))
               (\<lambda>h. Inr (h @ replicate pad 0 @ write_blocks (length h + pad) col_compressed)))))"

subsection \<open>Header and directory parser (reader.py, \<^verbatim>\<open>_parse_header\<close>)\<close>

record column_meta =
  name :: string
  dtype :: nat
  block_offset :: nat
  compressed_size :: nat
  uncompressed_size :: nat
  num_values :: nat

text \<open>The reader object; \<open>path\<close> stands for the contents of the file at that path.\<close>

record reader =
  path :: bytes
  schema :: "column_def list"
  num_rows :: nat
  num_columns :: nat
  columns :: "column_meta list"

text \<open>\<^verbatim>\<open>fh.read(n)\<close> on the rest of the file: the bytes read (fewer than \<open>n\<close> at the end of
  the file) and what is left.\<close>

definition fh_read :: "nat \<Rightarrow> bytes \<Rightarrow> bytes \<times> bytes" where
  "fh_read n fh = (take n fh, drop n fh)"

definition rstrip_zero :: "bytes \<Rightarrow> bytes" where
  "rstrip_zero b = rev (dropWhile (\<lambda>x. x = 0) (rev b))"

definition parse_entry :: "bytes \<Rightarrow> error + (column_meta \<times> bytes)" where
  "parse_entry fh =
     (let (nl_bytes, fh1) = fh_read 2 fh
      in if length nl_bytes < 2 then Inl (ValueError ''truncated dir'')
         else bindr (unpack_unsigned 2 nl_bytes) (\<lambda>name_len.
           let (name_b, fh2) = fh_read name_len fh1
           in bindr (utf8_decode name_b) (\<lambda>nm.
             let (dtype_b, fh3) = fh_read 1 fh2
             in bindr (unpack_unsigned 1 dtype_b) (\<lambda>dt.
               let (b4, fh4) = fh_read 8 fh3
               in bindr (unpack_unsigned 8 b4) (\<lambda>boff.
                 let (b5, fh5) = fh_read 8 fh4
                 in bindr (unpack_unsigned 8 b5) (\<lambda>csize.
                   let (b6, fh6) = fh_read 8 fh5
                   in bindr (unpack_unsigned 8 b6) (\<lambda>usize.
                     let (b7, fh7) = fh_read 8 fh6
                     in bindr (unpack_unsigned 8 b7) (\<lambda>nvals.
                       Inr (\<lparr>name = nm, dtype = dt, block_offset = boff,
                              compressed_size = csize, uncompressed_size = usize,
                              num_values = nvals\<rparr>, fh7)))))))))"

fun parse_directory :: "nat \<Rightarrow> bytes \<Rightarrow> error + (column_meta list \<times> bytes)" where
  "parse_directory 0 fh = Inr ([], fh)"
| "parse_directory (Suc n) fh =
     (case parse_entry fh of
        Inl e \<Rightarrow> Inl e
      | Inr (m, fh') \<Rightarrow>
          (case parse_directory n fh' of
             Inl e \<Rightarrow> Inl e
           | Inr (ms, fh'') \<Rightarrow> Inr (m # ms, fh'')))"

definition parse_header :: "externals \<Rightarrow> bytes \<Rightarrow> error + reader" where
  "parse_header ext file =
     (let (prefix, fh1) = fh_read 12 file
      in if length prefix < 12 then Inl (ValueError ''file too small'')
         else let magic = take 8 prefix
         in if rstrip_zero magic \<noteq> utf8_encode ''CFILEv01'' then Inl (ValueError ''bad magic'')
         else let version = unat (prefix ! 8); endianness = unat (prefix ! 9)
         in if version \<noteq> 1 then Inl (ValueError ''unsupported version'')
         else if endianness \<noteq> 0 then Inl (ValueError ''unsupported endianness'')
         else let (rest, fh2) = fh_read 4 fh1
         in if length rest < 4 then Inl (ValueError ''truncated schema length'')
         else bindr (unpack_unsigned 4 rest) (\<lambda>schema_len.
           let (schema_json, fh3) = fh_read schema_len fh2
           in if length schema_json < schema_len then Inl (ValueError ''truncated schema json'')
              else bindr (utf8_decode schema_json) (\<lambda>js.
                bindr (case json_loads ext js of None \<Rightarrow> Inl JSONDecodeError | Some sc \<Rightarrow> Inr sc)
                  (\<lambda>sch.
                  let (gm, fh4) = fh_read 12 fh3
                  in if length gm < 12 then Inl (ValueError ''truncated global metadata'')
                     else bindr (unpack_unsigned 8 (take 8 gm)) (\<lambda>nrows.
                       bindr (unpack_unsigned 4 (take 4 (drop 8 gm))) (\<lambda>ncols.
                         bindr (parse_directory ncols fh4) (\<lambda>(cols, fh5).
                           Inr \<lparr>path = file, schema = sch, num_rows = nrows,
                                num_columns = ncols, columns = cols\<rparr>)))))))"

subsection \<open>Column and row materialisers (reader.py)\<close>

datatype pyvalue = PyInt int | PyFloat float64 | PyStr string

text \<open>\<^verbatim>\<open>fh.seek(n)\<close> converts its argument to a signed 64-bit file offset and raises
  ValueError when it does not fit; \<^verbatim>\<open>fh.read(n)\<close> converts its argument to a signed 64-bit
  size and raises OverflowError when it does not fit. The directory fields are unsigned 64-bit
  numbers taken from the file without a range check, so both happen for a crafted directory.
  Seeking beyond the end of the file is allowed; the read then returns no bytes. The messages
  of the errors are abbreviated.\<close>

definition read_column_uncompressed :: "externals \<Rightarrow> reader \<Rightarrow> column_meta \<Rightarrow> error + bytes" where
  "read_column_uncompressed ext rd col =
     (if 2 ^ 63 \<le> block_offset col
      then Inl (ValueError ''cannot fit int into an offset-sized integer'')
      else if 2 ^ 63 \<le> compressed_size col then Inl OverflowError
      else
      let comp = take (compressed_size col) (drop (block_offset col) (path rd))
      in if length comp \<noteq> compressed_size col
         then Inl (ValueError ''failed to read full compressed block'')
         else (case zlib_decompress ext comp of
                 None \<Rightarrow> Inl ZlibError
               | Some uncompressed \<Rightarrow>
                   if length uncompressed \<noteq> uncompressed_size col
                   then Inl (ValueError ''uncompressed size mismatch'')
                   else Inr uncompressed))"

text \<open>The three decoding loops of \<^verbatim>\<open>read_column\<close>. A Python slice \<^verbatim>\<open>s[a:b]\<close> with
  non-negative bounds is \<open>drop a (take b s)\<close>.\<close>

definition decode_values :: "column_meta \<Rightarrow> bytes \<Rightarrow> error + pyvalue list" where
  "decode_values meta data =
     (if dtype meta = DT_INT32 then
        map_result (\<lambda>i. bindr (unpack_from 4 data (i * 4)) (\<lambda>u. Inr (PyInt (signed32 u))))
          [0 ..< num_values meta]
      else if dtype meta = DT_FLOAT64 then
        map_result (\<lambda>i. bindr (unpack_from 8 data (i * 8)) (\<lambda>u. Inr (PyFloat (of_nat u))))
          [0 ..< num_values meta]
      else if dtype meta = DT_STRING then
        bindr (map_result (\<lambda>i. unpack_from 4 data (i * 4)) [0 ..< num_values meta + 1]) (\<lambda>offs.
          let base = 4 * (num_values meta + 1);
              sblob = drop base data
          in map_result
               (\<lambda>i. let a = offs ! i; b = offs ! (i + 1)
                    in bindr (utf8_decode (drop a (take b sblob))) (\<lambda>s. Inr (PyStr s)))
               [0 ..< num_values meta])
      else Inl (ValueError ''unknown dtype''))"

definition read_column :: "externals \<Rightarrow> reader \<Rightarrow> string \<Rightarrow> error + pyvalue list" where
  "read_column ext rd nm =
     (case find (\<lambda>c. name c = nm) (columns rd) of
        None \<Rightarrow> Inl KeyError
      | Some meta \<Rightarrow> bindr (read_column_uncompressed ext rd meta) (decode_values meta))"

text \<open>A row is a Python dictionary: an association list in insertion order, where assigning
  to a key that is present replaces its value in place.\<close>

type_synonym row = "(string \<times> pyvalue) list"

fun build_row :: "nat \<Rightarrow> (string \<times> pyvalue list) list \<Rightarrow> row \<Rightarrow> error + row" where
  "build_row i [] r = Inr r"
| "build_row i ((cname, cvals) # rest) r =
     (case nth_result cvals i of
        Inl e \<Rightarrow> Inl e
      | Inr v \<Rightarrow> build_row i rest (AList.update cname v r))"

definition read_all :: "externals \<Rightarrow> reader \<Rightarrow> error + row list" where
  "read_all ext rd =
     (let col_names = map name (columns rd)
      in bindr (map_result (read_column ext rd) col_names) (\<lambda>col_data.
           map_result (\<lambda>i. build_row i (zip col_names col_data) []) [0 ..< num_rows rd]))"

subsection \<open>Notions used to state the properties\<close>

text \<open>The field of a CSV row at a column index, empty when the row is too short.\<close>

definition cell :: "string list \<Rightarrow> nat \<Rightarrow> string" where
  "cell row i = (if i < length row then row ! i else [])"

text \<open>
  An instance of the collaborators on which examples are evaluated: compression is the
  identity, and the two parsers know the literals that the examples use
  (\<^verbatim>\<open>float("7")\<close> is \<open>0x401C000000000000\<close>, \<^verbatim>\<open>float("3.9")\<close> is
  \<open>0x400F333333333333\<close> and \<^verbatim>\<open>float("3000000000")\<close> is \<open>0x41E65A0BC0000000\<close>).
\<close>

definition example_ext :: externals where
  "example_ext =
     \<lparr>zlib_compress = (\<lambda>b. b),
      zlib_decompress = (\<lambda>b. Some b),
      py_int = (\<lambda>s. if s = ''7'' then Some 7
                     else if s = ''3000000000'' then Some 3000000000 else None),
      py_float = (\<lambda>s. if s = ''7'' then Some 0x401C000000000000
                       else if s = ''3.9'' then Some 0x400F333333333333
                       else if s = ''-3.9'' then Some 0xC00F333333333333
                       else if s = ''3000000000'' then Some 0x41E65A0BC0000000
                       else None),
      json_dumps = (\<lambda>sch. ''{}''),
      json_loads = (\<lambda>s. Some [])\<rparr>"

text \<open>The bytes of a directory entry with given fields, and the bounds under which every
  field fits its format.\<close>

definition entry_bytes :: "column_meta \<Rightarrow> bytes" where
  "entry_bytes m =
     le_bytes 2 (length (utf8_encode (name m))) @ utf8_encode (name m) @ le_bytes 1 (dtype m) @
     le_bytes 8 (block_offset m) @ le_bytes 8 (compressed_size m) @
     le_bytes 8 (uncompressed_size m) @ le_bytes 8 (num_values m)"

definition wf_meta :: "column_meta \<Rightarrow> bool" where
  "wf_meta m \<longleftrightarrow>
     is_str (name m) \<and> length (utf8_encode (name m)) < 256 ^ 2 \<and> dtype m < 256 ^ 1 \<and>
     block_offset m < 256 ^ 8 \<and> compressed_size m < 256 ^ 8 \<and>
     uncompressed_size m < 256 ^ 8 \<and> num_values m < 256 ^ 8"

text \<open>The first twelve bytes of every file the writer produces: the magic, version 1,
  endianness 0 and two reserved zero bytes.\<close>

definition fixed_prefix :: bytes where
  "fixed_prefix = [67, 70, 73, 76, 69, 118, 48, 49, 1, 0, 0, 0]"

text \<open>The directory entry, as the reader sees it, that the writer's second pass emits for a
  column definition and its layout fields.\<close>

definition meta_of :: "column_def \<Rightarrow> nat \<Rightarrow> nat \<Rightarrow> nat \<Rightarrow> nat \<Rightarrow> column_meta" where
  "meta_of col_meta off csize usize nrows =
     \<lparr>name = fst col_meta,
      dtype = (if snd col_meta = ''INT32'' then 0 else if snd col_meta = ''FLOAT64'' then 1 else 2),
      block_offset = off, compressed_size = csize, uncompressed_size = usize,
      num_values = nrows\<rparr>"

definition known_type :: "string \<Rightarrow> bool" where
  "known_type t \<longleftrightarrow> t = ''INT32'' \<or> t = ''FLOAT64'' \<or> t = ''STRING''"

text \<open>Rounding up to the next multiple of 8.\<close>

definition align8 :: "nat \<Rightarrow> nat" where
  "align8 n = n + (8 - n mod 8) mod 8"

text \<open>The length of the header: the fixed prefix with the schema length (16 bytes), the
  schema blob, the row and column counts (12 bytes) and one entry of 35 bytes plus the
  name per column.\<close>

definition header_length :: "bytes \<Rightarrow> column_def list \<Rightarrow> nat" where
  "header_length schema_json sch =
     28 + length schema_json + (\<Sum>col_meta\<leftarrow>sch. 35 + length (utf8_encode (fst col_meta)))"

definition written_metas ::
  "column_def list \<Rightarrow> nat list \<Rightarrow> bytes list \<Rightarrow> bytes list \<Rightarrow> nat \<Rightarrow> column_meta list" where
  "written_metas sch offsets comps ubs nrows =
     map (\<lambda>i. meta_of (sch ! i) (offsets ! i) (length (comps ! i)) (length (ubs ! i)) nrows)
       [0 ..< length sch]"

text \<open>A table with an INT32 and a STRING column, and the file that the writer produces for
  it under \<open>example_ext\<close>.\<close>

definition example_schema :: "column_def list" where
  "example_schema = [(''a'', ''INT32''), (''s'', ''STRING'')]"

definition example_columns :: "string list list" where
  "example_columns = [[''7'', ''''], [''hi'', '''']]"

definition example_file :: bytes where
  "example_file =
     [67, 70, 73, 76, 69, 118, 48, 49, 1, 0, 0, 0, 2, 0, 0, 0, 123, 125,
      2, 0, 0, 0, 0, 0, 0, 0, 2, 0, 0, 0,
      1, 0, 97, 0, 104, 0, 0, 0, 0, 0, 0, 0, 8, 0, 0, 0, 0, 0, 0, 0,
      8, 0, 0, 0, 0, 0, 0, 0, 2, 0, 0, 0, 0, 0, 0, 0,
      1, 0, 115, 2, 112, 0, 0, 0, 0, 0, 0, 0, 14, 0, 0, 0, 0, 0, 0, 0,
      14, 0, 0, 0, 0, 0, 0, 0, 2, 0, 0, 0, 0, 0, 0, 0,
      0, 0,
      7, 0, 0, 0, 0, 0, 0, 0,
      0, 0, 0, 0, 2, 0, 0, 0, 2, 0, 0, 0, 104, 105, 0, 0]"

text \<open>The reader object that parsing \<open>example_file\<close> gives.\<close>

definition example_reader :: reader where
  "example_reader =
     \<lparr>path = example_file, schema = [], num_rows = 2, num_columns = 2,
      columns =
        [\<lparr>name = ''a'', dtype = 0, block_offset = 104, compressed_size = 8,
           uncompressed_size = 8, num_values = 2\<rparr>,
         \<lparr>name = ''s'', dtype = 2, block_offset = 112, compressed_size = 14,
           uncompressed_size = 14, num_values = 2\<rparr>]\<rparr>"

text \<open>A file whose header announces one row while the directory entry of its only column,
  an INT32 column, counts two values (1 and 2), and the reader object it parses to.\<close>

definition surplus_file :: bytes where
  "surplus_file =
     [67, 70, 73, 76, 69, 118, 48, 49, 1, 0, 0, 0, 2, 0, 0, 0, 123, 125,
      1, 0, 0, 0, 0, 0, 0, 0, 1, 0, 0, 0,
      1, 0, 97, 0, 72, 0, 0, 0, 0, 0, 0, 0, 8, 0, 0, 0, 0, 0, 0, 0,
      8, 0, 0, 0, 0, 0, 0, 0, 2, 0, 0, 0, 0, 0, 0, 0,
      0, 0, 0, 0, 0, 0,
      1, 0, 0, 0, 2, 0, 0, 0]"

definition surplus_reader :: reader where
  "surplus_reader =
     \<lparr>path = surplus_file, schema = [], num_rows = 1, num_columns = 1,
      columns =
        [\<lparr>name = ''a'', dtype = 0, block_offset = 72, compressed_size = 8,
           uncompressed_size = 8, num_values = 2\<rparr>]\<rparr>"

section \<open>Properties\<close>

subsection \<open>General facts\<close>

lemma bindr_Inr [simp]: "bindr (Inr x) f = f x"
  by (simp add: bindr_def)

lemma bindr_Inl [simp]: "bindr (Inl e) f = Inl e"
  by (simp add: bindr_def)

lemma bindr_eq_Inr: "bindr m f = Inr y \<longleftrightarrow> (\<exists>x. m = Inr x \<and> f x = Inr y)"
  by (cases m) simp_all

lemma map_result_Inr:
  "map_result f xs = Inr ys \<longleftrightarrow> list_all2 (\<lambda>x y. f x = Inr y) xs ys"
proof (induction xs arbitrary: ys)
  case Nil
  then show ?case by auto
next
  case (Cons x xs)
  show ?case
  proof (cases "f x")
    case (Inl e)
    then show ?thesis by (auto simp: list_all2_Cons1)
  next
    case (Inr y)
    then show ?thesis using Cons.IH
      by (cases "map_result f xs") (auto simp: list_all2_Cons1)
  qed
qed

lemma map_result_map: "map_result (\<lambda>x. Inr (g x)) xs = Inr (map g xs)"
  by (induction xs) simp_all

lemma map_result_cong:
  "(\<And>x. x \<in> set xs \<Longrightarrow> f x = g x) \<Longrightarrow> map_result f xs = map_result g xs"
proof (induction xs)
  case Nil
  then show ?case by simp
next
  case (Cons a xs)
  have "f a = g a" "map_result f xs = map_result g xs"
    using Cons by simp_all
  then show ?case by (cases "g a") simp_all
qed


lemma length_le_bytes [simp]: "length (le_bytes k n) = k"
  by (induction k arbitrary: n) simp_all

lemma le_nat_le_bytes: "le_nat (le_bytes k n) = n mod 256 ^ k"
proof (induction k arbitrary: n)
  case 0
  then show ?case by simp
next
  case (Suc k)
  have "unat (of_nat (n mod 256) :: byte) = n mod 256"
    by (simp add: unat_of_nat)
  then show ?case
    using Suc.IH [of "n div 256"] by (simp add: mod_mult2_eq)
qed

lemma le_nat_le_bytes_id: "n < 256 ^ k \<Longrightarrow> le_nat (le_bytes k n) = n"
  by (simp add: le_nat_le_bytes)

lemma concat_fixed_slice:
  "\<forall>b \<in> set bs. length b = k \<Longrightarrow> i < length bs \<Longrightarrow>
   take k (drop (i * k) (concat bs)) = bs ! i"
proof (induction bs arbitrary: i)
  case Nil
  then show ?case by simp
next
  case (Cons b bs)
  show ?case
  proof (cases i)
    case 0
    then show ?thesis using Cons.prems by simp
  next
    case (Suc j)
    then show ?thesis using Cons.prems Cons.IH [of j] by simp
  qed
qed

lemma length_concat_fixed:
  "\<forall>b \<in> set bs. length b = k \<Longrightarrow> length (concat bs) = length bs * k"
  by (induction bs) simp_all



lemma float_sign_cases: "float_sign f = 0 \<or> float_sign f = 1"
proof -
  have "unat f < 2 ^ 64" using unsigned_less [of f] by simp
  then have "unat f div 2 ^ 63 < 2" by (simp add: less_mult_imp_div_less)
  then show ?thesis unfolding float_sign_def by linarith
qed





subsection \<open>Evaluating the packing functions\<close>

lemma le_bytes_4:
  "le_bytes 4 n = [of_nat (n mod 256), of_nat (n div 256 mod 256),
     of_nat (n div 256 div 256 mod 256), of_nat (n div 256 div 256 div 256 mod 256)]"
proof -
  have "(4::nat) = Suc (Suc (Suc (Suc 0)))" by simp
  then show ?thesis by (simp only: le_bytes.simps)
qed


lemma le_bytes_1: "le_bytes 1 n = [of_nat (n mod 256)]" "le_bytes (Suc 0) n = [of_nat (n mod 256)]"
  by simp_all

lemma le_bytes_2: "le_bytes 2 n = [of_nat (n mod 256), of_nat (n div 256 mod 256)]"
proof -
  have "(2::nat) = Suc (Suc 0)" by simp
  then show ?thesis by (simp only: le_bytes.simps)
qed

lemma le_bytes_8:
  "le_bytes 8 n = [of_nat (n mod 256), of_nat (n div 256 mod 256),
     of_nat (n div 256 div 256 mod 256), of_nat (n div 256 div 256 div 256 mod 256),
     of_nat (n div 256 div 256 div 256 div 256 mod 256),
     of_nat (n div 256 div 256 div 256 div 256 div 256 mod 256),
     of_nat (n div 256 div 256 div 256 div 256 div 256 div 256 mod 256),
     of_nat (n div 256 div 256 div 256 div 256 div 256 div 256 div 256 mod 256)]"
proof -
  have "(8::nat) = Suc (Suc (Suc (Suc (Suc (Suc (Suc (Suc 0)))))))" by simp
  then show ?thesis by (simp only: le_bytes.simps)
qed

lemma example_blocks:
  "build_uncompressed_block example_ext ''INT32'' [''7'', ''''] = Inr [7, 0, 0, 0, 0, 0, 0, 0]"
  "build_uncompressed_block example_ext ''STRING'' [''hi'', ''''] =
     Inr [0, 0, 0, 0, 2, 0, 0, 0, 2, 0, 0, 0, 104, 105]"
  by (simp_all add: build_uncompressed_block_def int32_value_def float_of_str_def example_ext_def
      float_to_int_def float_exponent_def float_fraction_def float_sign_def
      float_magnitude_trunc_def pack_i32_def pack_u32_def pack_unsigned_def le_bytes_4
      utf8_encode_def byte_of_char_def)

lemma example_header_fixed:
  "header_fixed (utf8_encode ''{}'') 2 2 =
     Inr [67, 70, 73, 76, 69, 118, 48, 49, 1, 0, 0, 0, 2, 0, 0, 0, 123, 125,
          2, 0, 0, 0, 0, 0, 0, 0, 2, 0, 0, 0]"
  by (simp add: header_fixed_def MAGIC_def VERSION_def ENDIANNESS_def RESERVED_def pad_magic_def
      pack_u8_def pack_u16_def pack_u32_def pack_u64_def pack_unsigned_def
      le_bytes_1 le_bytes_2 le_bytes_4 le_bytes_8 utf8_encode_def byte_of_char_def
      del: le_bytes.simps)


lemma example_header_fixed_Suc:
  "header_fixed [123, 125] (Suc (Suc 0)) (Suc (Suc 0)) =
     Inr [67, 70, 73, 76, 69, 118, 48, 49, 1, 0, 0, 0, 2, 0, 0, 0, 123, 125,
          2, 0, 0, 0, 0, 0, 0, 0, 2, 0, 0, 0]"
  using example_header_fixed by (simp add: numeral_2_eq_2 utf8_encode_def byte_of_char_def)

lemma replicate_2: "replicate 2 x = [x, x]"
  by (simp add: numeral_2_eq_2)

lemma example_write: "write_cfile example_ext example_schema [''a'', ''s''] example_columns = Inr example_file"
  unfolding write_cfile_def example_schema_def example_columns_def
  by (simp add: nth_result_def example_blocks example_header_fixed_Suc Let_def bindr_def
      dir_entry_def dtype_tag_def pack_u8_def pack_u16_def pack_u64_def pack_unsigned_def
      le_bytes_1 le_bytes_2 le_bytes_8 utf8_encode_def byte_of_char_def example_file_def replicate_2
      example_ext_def [THEN arg_cong, of zlib_compress] example_ext_def [THEN arg_cong, of json_dumps]
      del: le_bytes.simps)


lemma char_of_examples:
  "char_of (97::nat) = CHR ''a''" "char_of (115::nat) = CHR ''s''"
  "char_of (104::nat) = CHR ''h''" "char_of (105::nat) = CHR ''i''"
  using char_of_char [of "CHR ''a''", where ?'a = nat] char_of_char [of "CHR ''s''", where ?'a = nat]
    char_of_char [of "CHR ''h''", where ?'a = nat] char_of_char [of "CHR ''i''", where ?'a = nat]
  by simp_all

lemma parse_entry_a:
  "parse_entry (1 # 0 # 97 # 0 # 104 # 0 # 0 # 0 # 0 # 0 # 0 # 0 # 8 # 0 # 0 # 0 # 0 # 0 # 0 # 0 #
      8 # 0 # 0 # 0 # 0 # 0 # 0 # 0 # 2 # 0 # 0 # 0 # 0 # 0 # 0 # 0 # rest) =
   Inr (\<lparr>name = ''a'', dtype = 0, block_offset = 104, compressed_size = 8,
          uncompressed_size = 8, num_values = 2\<rparr>, rest)"
  by (simp add: parse_entry_def fh_read_def unpack_unsigned_def utf8_decode_def char_of_byte_def
      Let_def char_of_examples)

lemma parse_entry_s:
  "parse_entry (1 # 0 # 115 # 2 # 112 # 0 # 0 # 0 # 0 # 0 # 0 # 0 # 14 # 0 # 0 # 0 # 0 # 0 # 0 # 0 #
      14 # 0 # 0 # 0 # 0 # 0 # 0 # 0 # 2 # 0 # 0 # 0 # 0 # 0 # 0 # 0 # rest) =
   Inr (\<lparr>name = ''s'', dtype = 2, block_offset = 112, compressed_size = 14,
          uncompressed_size = 14, num_values = 2\<rparr>, rest)"
  by (simp add: parse_entry_def fh_read_def unpack_unsigned_def utf8_decode_def char_of_byte_def
      Let_def char_of_examples)

lemma example_parse: "parse_header example_ext example_file = Inr example_reader"
proof -
  have d: "parse_directory 2 (1 # 0 # 97 # 0 # 104 # 0 # 0 # 0 # 0 # 0 # 0 # 0 # 8 # 0 # 0 # 0 # 0 # 0 # 0 # 0 #
      8 # 0 # 0 # 0 # 0 # 0 # 0 # 0 # 2 # 0 # 0 # 0 # 0 # 0 # 0 # 0 #
      1 # 0 # 115 # 2 # 112 # 0 # 0 # 0 # 0 # 0 # 0 # 0 # 14 # 0 # 0 # 0 # 0 # 0 # 0 # 0 #
      14 # 0 # 0 # 0 # 0 # 0 # 0 # 0 # 2 # 0 # 0 # 0 # 0 # 0 # 0 # 0 # rest) =
     Inr ([\<lparr>name = ''a'', dtype = 0, block_offset = 104, compressed_size = 8,
           uncompressed_size = 8, num_values = 2\<rparr>,
         \<lparr>name = ''s'', dtype = 2, block_offset = 112, compressed_size = 14,
           uncompressed_size = 14, num_values = 2\<rparr>], rest)" for rest
  proof -
    have "(2::nat) = Suc (Suc 0)" by simp
    then show ?thesis
      by (simp only: parse_directory.simps parse_entry_a parse_entry_s sum.case prod.case)
  qed
  show ?thesis
    unfolding parse_header_def example_file_def
    by (simp add: fh_read_def rstrip_zero_def utf8_encode_def byte_of_char_def
        unpack_unsigned_def utf8_decode_def Let_def d example_reader_def example_file_def
        example_ext_def [THEN arg_cong, of json_loads])
qed


subsection \<open>CSV ingestion\<close>

lemma fold_enumerate_append:
  "k + length xs \<le> length cs \<Longrightarrow>
   length (fold (\<lambda>(i, v) cs. cs[i := cs ! i @ [v]]) (enumerate k xs) cs) = length cs \<and>
   (\<forall>j < length cs. fold (\<lambda>(i, v) cs. cs[i := cs ! i @ [v]]) (enumerate k xs) cs ! j =
      (if k \<le> j \<and> j < k + length xs then cs ! j @ [xs ! (j - k)] else cs ! j))"
proof (induction xs arbitrary: k cs)
  case Nil
  then show ?case by simp
next
  case (Cons x xs)
  let ?cs = "cs[k := cs ! k @ [x]]"
  have "Suc k + length xs \<le> length ?cs" using Cons.prems by simp
  from Cons.IH [OF this]
  have len: "length (fold (\<lambda>(i, v) cs. cs[i := cs ! i @ [v]]) (enumerate (Suc k) xs) ?cs) = length cs"
    and nth: "\<And>j. j < length cs \<Longrightarrow>
      fold (\<lambda>(i, v) cs. cs[i := cs ! i @ [v]]) (enumerate (Suc k) xs) ?cs ! j =
      (if Suc k \<le> j \<and> j < Suc k + length xs then ?cs ! j @ [xs ! (j - Suc k)] else ?cs ! j)"
    by simp_all
  have "fold (\<lambda>(i, v) cs. cs[i := cs ! i @ [v]]) (enumerate k (x # xs)) cs ! j =
      (if k \<le> j \<and> j < k + length (x # xs) then cs ! j @ [(x # xs) ! (j - k)] else cs ! j)"
    if j: "j < length cs" for j
  proof (cases "j = k")
    case True
    then show ?thesis using nth [OF j] j by simp
  next
    case False
    then show ?thesis using nth [OF j] j by (auto simp: nth_Cons' Suc_diff_le)
  qed
  then show ?case using len by simp
qed

lemma append_row_nth:
  assumes "length cols = n"
  shows "length (append_row n cols row) = n"
    and "j < n \<Longrightarrow> append_row n cols row ! j = cols ! j @ [cell row j]"
proof -
  define xs where "xs = take n (row @ replicate (n - length row) [])"
  have len: "length xs = n" by (simp add: xs_def)
  have nth: "xs ! j = cell row j" if "j < n" for j
    using that by (simp add: xs_def cell_def nth_append)
  have eq: "append_row n cols row = fold (\<lambda>(i, v) cs. cs[i := cs ! i @ [v]]) (enumerate 0 xs) cols"
    unfolding append_row_def Let_def xs_def ..
  have "0 + length xs \<le> length cols" using assms len by simp
  note f = fold_enumerate_append [OF this]
  show "length (append_row n cols row) = n"
    unfolding eq using f assms by blast
  show "append_row n cols row ! j = cols ! j @ [cell row j]" if j: "j < n"
  proof -
    have "j < length cols" using j assms by simp
    with f have "fold (\<lambda>(i, v) cs. cs[i := cs ! i @ [v]]) (enumerate 0 xs) cols ! j =
      (if 0 \<le> j \<and> j < 0 + length xs then cols ! j @ [xs ! (j - 0)] else cols ! j)"
      by blast
    then show ?thesis unfolding eq using j len nth by simp
  qed
qed

lemma foldl_append_row_length:
  "length cols = n \<Longrightarrow> length (foldl (append_row n) cols rows) = n"
proof (induction rows arbitrary: cols)
  case Nil
  then show ?case by simp
next
  case (Cons r rows)
  have "length (append_row n cols r) = n" using Cons.prems by (rule append_row_nth)
  then have "length (foldl (append_row n) (append_row n cols r) rows) = n" by (rule Cons.IH)
  then show ?case by simp
qed

lemma foldl_append_row_nth:
  "length cols = n \<Longrightarrow> j < n \<Longrightarrow>
   foldl (append_row n) cols rows ! j = cols ! j @ map (\<lambda>r. cell r j) rows"
proof (induction rows arbitrary: cols)
  case Nil
  then show ?case by simp
next
  case (Cons r rows)
  have l: "length (append_row n cols r) = n" using Cons.prems(1) by (rule append_row_nth)
  have "foldl (append_row n) (append_row n cols r) rows ! j =
      append_row n cols r ! j @ map (\<lambda>r. cell r j) rows"
    using l Cons.prems(2) by (rule Cons.IH)
  also have "append_row n cols r ! j = cols ! j @ [cell r j]"
    using Cons.prems by (rule append_row_nth(2))
  finally show ?case by simp
qed

text \<open>
  Claim C10. On a CSV source with a header line, \<open>read_csv_columns\<close> returns the header and
  one list per header column; every list has as many entries as there are data rows; the
  entry of column \<open>i\<close> for data row \<open>j\<close> is the row's field \<open>i\<close> when the row has one and the
  empty string otherwise, so short rows are padded and fields beyond the header's width
  appear nowhere.
\<close>

theorem read_csv_columns_shape:
  "\<exists>cols. read_csv_columns (header # rows) sch = Inr (header, cols) \<and>
     length cols = length header \<and>
     (\<forall>c \<in> set cols. length c = length rows) \<and>
     (\<forall>i < length header. \<forall>j < length rows.
        cols ! i ! j = (if i < length (rows ! j) then rows ! j ! i else []))"
proof -
  define n where "n = length header"
  define cols where "cols = foldl (append_row n) (replicate n []) rows"
  have len: "length cols = n"
    unfolding cols_def by (rule foldl_append_row_length) simp
  have col: "cols ! i = map (\<lambda>r. cell r i) rows" if "i < n" for i
  proof -
    have "foldl (append_row n) (replicate n []) rows ! i =
        replicate n [] ! i @ map (\<lambda>r. cell r i) rows"
      by (rule foldl_append_row_nth) (simp_all add: that)
    then show ?thesis using that by (simp add: cols_def)
  qed
  have res: "read_csv_columns (header # rows) sch = Inr (header, cols)"
    by (simp add: read_csv_columns_def cols_def n_def)
  have lens: "\<forall>c \<in> set cols. length c = length rows"
  proof
    fix c assume "c \<in> set cols"
    then obtain i where "i < n" "c = cols ! i"
      using len by (auto simp: in_set_conv_nth)
    then show "length c = length rows" by (simp add: col)
  qed
  have cells: "\<forall>i < length header. \<forall>j < length rows.
      cols ! i ! j = (if i < length (rows ! j) then rows ! j ! i else [])"
  proof (intro allI impI)
    fix i j assume "i < length header" "j < length rows"
    then show "cols ! i ! j = (if i < length (rows ! j) then rows ! j ! i else [])"
      using col [of i] by (simp add: n_def cell_def)
  qed
  from res len lens cells show ?thesis unfolding n_def by blast
qed

lemma read_csv_columns_example:
  "read_csv_columns [[''a'', ''b''], [''1''], [''2'', ''x'', ''extra'']] [] =
     Inr ([''a'', ''b''], [[''1'', ''2''], ['''', ''x'']])"
  by (simp add: read_csv_columns_def append_row_def enumerate_eq_zip upt_rec)

theorem read_csv_columns_shape_witness:
  "read_csv_columns [[''a'', ''b''], [''1''], [''2'', ''x'', ''extra'']] [] =
     Inr ([''a'', ''b''], [[''1'', ''2''], ['''', ''x'']]) \<and>
   length [[''1'', ''2''], ['''', ''x'']] = length [''a'', ''b''] \<and>
   length [''1'', ''2''] = length [[''1''], [''2'', ''x'', ''extra'']] \<and>
   length ['''', ''x''] = length [[''1''], [''2'', ''x'', ''extra'']]"
  using read_csv_columns_shape [of "[''a'', ''b'']" "[[''1''], [''2'', ''x'', ''extra'']]" "[]"]
    read_csv_columns_example
  by simp

subsection \<open>Type inference\<close>

lemma infer_type_cases:
  "infer_type ext v =
     (if v = [] then DT_STRING
      else if py_int ext v \<noteq> None then DT_INT32
      else if py_float ext v \<noteq> None then DT_FLOAT64 else DT_STRING)"
  by (auto simp: infer_type_def split: option.splits)

lemma typename_infer_type: "\<exists>t. typename (infer_type ext v) = Inr t"
  by (simp add: infer_type_cases typename_def DT_INT32_def DT_FLOAT64_def DT_STRING_def)

lemma map_result_zip_total:
  assumes "\<And>x. \<exists>y. f x = Inr y"
  shows "\<exists>ys. map_result f xs = Inr ys \<and> length ys = length xs \<and>
           (\<forall>i < length xs. f (xs ! i) = Inr (ys ! i))"
proof (induction xs)
  case Nil
  then show ?case by simp
next
  case (Cons x xs)
  from assms obtain y where y: "f x = Inr y" by blast
  from Cons obtain ys where ys: "map_result f xs = Inr ys" "length ys = length xs"
    "\<forall>i < length xs. f (xs ! i) = Inr (ys ! i)" by blast
  have "\<forall>i < length (x # xs). f ((x # xs) ! i) = Inr ((y # ys) ! i)"
    using y ys(3) by (simp add: nth_Cons split: nat.splits)
  then show ?case using y ys(1,2) by simp
qed

text \<open>
  Type inference looks at one sample value per column: the empty string is a STRING;
  otherwise a value that \<^verbatim>\<open>int\<close> accepts is an INT32, else a value that \<^verbatim>\<open>float\<close> accepts
  is a FLOAT64, else it is a STRING. A source with a header and no data row gives every
  column the type STRING; with a first data row, the schema pairs the header names with the
  classification of the sample values by \<^verbatim>\<open>zip\<close>, so it has as many entries as the shorter
  of the header and the first row.
\<close>

lemma infer_schema_classification:
  "(v = [] \<longrightarrow> infer_type ext v = DT_STRING) \<and>
   (v \<noteq> [] \<longrightarrow> py_int ext v \<noteq> None \<longrightarrow> infer_type ext v = DT_INT32) \<and>
   (v \<noteq> [] \<longrightarrow> py_int ext v = None \<longrightarrow> py_float ext v \<noteq> None \<longrightarrow>
      infer_type ext v = DT_FLOAT64) \<and>
   (py_int ext v = None \<longrightarrow> py_float ext v = None \<longrightarrow> infer_type ext v = DT_STRING) \<and>
   infer_schema_from_csv ext [header] = Inr (map (\<lambda>n. (n, ''STRING'')) header) \<and>
   (\<exists>sch. infer_schema_from_csv ext (header # sample_row # others) = Inr sch \<and>
      length sch = min (length header) (length sample_row) \<and>
      (\<forall>i < length sch. fst (sch ! i) = header ! i \<and>
         typename (infer_type ext (sample_row ! i)) = Inr (snd (sch ! i))))"
proof -
  let ?f = "\<lambda>(nm, sample). bindr (typename (infer_type ext sample)) (\<lambda>t. Inr (nm, t))"
  have "\<exists>y. ?f x = Inr y" for x
    using typename_infer_type [of ext "snd x"] by (cases x) auto
  from map_result_zip_total [of ?f "zip header sample_row", OF this]
  obtain sch where sch: "map_result ?f (zip header sample_row) = Inr sch"
    "length sch = length (zip header sample_row)"
    "\<forall>i < length (zip header sample_row). ?f (zip header sample_row ! i) = Inr (sch ! i)"
    by blast
  have "fst (sch ! i) = header ! i \<and> typename (infer_type ext (sample_row ! i)) = Inr (snd (sch ! i))"
    if "i < length sch" for i
  proof -
    from that sch(2) have i: "i < length header" "i < length sample_row" by simp_all
    from sch(3) that sch(2) have "?f (zip header sample_row ! i) = Inr (sch ! i)" by simp
    then obtain t where "typename (infer_type ext (sample_row ! i)) = Inr t"
      "sch ! i = (header ! i, t)"
      using i by (auto simp: bindr_eq_Inr)
    then show ?thesis by simp
  qed
  then have "\<exists>sch. infer_schema_from_csv ext (header # sample_row # others) = Inr sch \<and>
      length sch = min (length header) (length sample_row) \<and>
      (\<forall>i < length sch. fst (sch ! i) = header ! i \<and>
         typename (infer_type ext (sample_row ! i)) = Inr (snd (sch ! i)))"
    using sch(1,2) by (auto simp: infer_schema_from_csv_def)
  moreover have "infer_schema_from_csv ext [header] = Inr (map (\<lambda>n. (n, ''STRING'')) header)"
    by (simp add: infer_schema_from_csv_def)
  ultimately show ?thesis
    by (simp add: infer_type_cases DT_INT32_def DT_FLOAT64_def DT_STRING_def)
qed

lemma infer_example:
  "infer_schema_from_csv example_ext [[''id'', ''score'', ''name''], [''7'', ''3.9'', '''']] =
     Inr [(''id'', ''INT32''), (''score'', ''FLOAT64''), (''name'', ''STRING'')]"
  by (simp add: infer_schema_from_csv_def infer_type_def typename_def example_ext_def
      DT_INT32_def DT_FLOAT64_def DT_STRING_def)

lemma infer_schema_classification_examples:
  "infer_type example_ext [] = DT_STRING \<and>
   infer_type example_ext ''7'' = DT_INT32 \<and>
   infer_type example_ext ''3.9'' = DT_FLOAT64 \<and>
   infer_type example_ext ''x'' = DT_STRING \<and>
   infer_schema_from_csv example_ext [[''id'', ''score'', ''name'']] =
     Inr [(''id'', ''STRING''), (''score'', ''STRING''), (''name'', ''STRING'')] \<and>
   infer_schema_from_csv example_ext [[''id'', ''score'', ''name''], [''7'', ''3.9'', '''']] =
     Inr [(''id'', ''INT32''), (''score'', ''FLOAT64''), (''name'', ''STRING'')]"
  using infer_schema_classification [of "[]" example_ext "[''id'', ''score'', ''name'']" "[''7'', ''3.9'', '''']" "[]"]
    infer_schema_classification [of "''7''" example_ext "[]" "[]" "[]"]
    infer_schema_classification [of "''3.9''" example_ext "[]" "[]" "[]"]
    infer_schema_classification [of "''x''" example_ext "[]" "[]" "[]"]
    infer_example
  by (simp add: example_ext_def)

text \<open>
  Claim C7. Every column of the header is to be classified from the first data row, an
  empty sample giving STRING. For the source with header \<open>a, b, c\<close> and first data row \<open>7\<close>
  the schema has the single entry \<open>a\<close>: the columns \<open>b\<close> and \<open>c\<close> are not classified at all,
  while \<open>read_csv_columns\<close> on the same source pads the row and returns three columns,
  with the empty string as the value of \<open>b\<close> and \<open>c\<close>, which \<open>infer_type\<close> classifies as
  STRING.
\<close>

theorem infer_schema_short_first_row:
  "infer_schema_from_csv example_ext [[''a'', ''b'', ''c''], [''7'']] = Inr [(''a'', ''INT32'')] \<and>
   read_csv_columns [[''a'', ''b'', ''c''], [''7'']] [(''a'', ''INT32'')] =
     Inr ([''a'', ''b'', ''c''], [[''7''], [''''], ['''']]) \<and>
   infer_type example_ext '''' = DT_STRING"
  by (simp add: infer_schema_from_csv_def infer_type_def typename_def example_ext_def
      DT_INT32_def DT_FLOAT64_def DT_STRING_def read_csv_columns_def append_row_def
      enumerate_eq_zip upt_rec)


subsection \<open>Reading a compressed block\<close>





subsection \<open>Encoding of numeric columns\<close>

lemma pack_i32_length: "pack_i32 n = Inr b \<Longrightarrow> length b = 4"
  by (auto simp: pack_i32_def split: if_splits)


lemma signed32_pack_i32:
  assumes "pack_i32 n = Inr b"
  shows "signed32 (le_nat b) = n"
proof -
  from assms have r: "- (2 ^ 31) \<le> n" "n < 2 ^ 31" and b: "b = le_bytes 4 (nat (n mod 2 ^ 32))"
    by (auto simp: pack_i32_def split: if_splits)
  have "nat (n mod 2 ^ 32) < 256 ^ 4" by simp
  then have l: "le_nat b = nat (n mod 2 ^ 32)"
    unfolding b by (rule le_nat_le_bytes_id)
  show ?thesis
  proof (cases "0 \<le> n")
    case True
    with r have "n mod 2 ^ 32 = n" by simp
    with True r l show ?thesis by (simp add: signed32_def)
  next
    case False
    have "(n + 2 ^ 32) mod 2 ^ 32 = n + 2 ^ 32"
      using False r by (intro mod_pos_pos_trivial) simp_all
    moreover have "(n + 2 ^ 32) mod 2 ^ 32 = n mod 2 ^ 32" by simp
    ultimately have "n mod 2 ^ 32 = n + 2 ^ 32" by simp
    with False r l show ?thesis by (simp add: signed32_def)
  qed
qed








subsection \<open>Decoding what the column encoder produced\<close>

lemma map_result_upt:
  assumes "length ys = n" and "\<And>i. i < n \<Longrightarrow> f i = Inr (ys ! i)"
  shows "map_result f [0 ..< n] = Inr ys"
  using assms by (simp add: map_result_Inr list_all2_conv_all_nth)

lemma unat_byte_of_char: "unat (byte_of_char c) = of_char c"
proof -
  have "(of_char c :: nat) < 256" by simp
  then show ?thesis by (simp add: byte_of_char_def unat_of_nat)
qed

lemma utf8_decode_encode: "is_str s \<Longrightarrow> utf8_decode (utf8_encode s) = Inr s"
proof -
  assume s: "is_str s"
  have "map unat (utf8_encode s) = map of_char s"
    by (simp add: utf8_encode_def unat_byte_of_char)
  moreover have "map char_of_byte (utf8_encode s) = s"
    by (simp add: utf8_encode_def char_of_byte_def unat_byte_of_char map_idI)
  ultimately show ?thesis using s by (simp add: utf8_decode_def is_str_def)
qed

lemma length_string_offsets [simp]: "length (string_offsets cur vals) = length vals + 1"
  by (induction vals arbitrary: cur) simp_all

lemma string_offsets_nth:
  "i \<le> length vals \<Longrightarrow>
   string_offsets cur vals ! i = cur + length (concat (map utf8_encode (take i vals)))"
proof (induction vals arbitrary: cur i)
  case Nil
  then show ?case by simp
next
  case (Cons v vals)
  show ?case
  proof (cases i)
    case 0
    then show ?thesis by simp
  next
    case (Suc j)
    with Cons.prems have "j \<le> length vals" by simp
    from Cons.IH [OF this, of "cur + length (utf8_encode v)"] Suc
    show ?thesis by simp
  qed
qed

lemma payload_slice:
  assumes "i < length vals"
  shows "drop (length (concat (map f (take i vals))))
           (take (length (concat (map f (take (Suc i) vals)))) (concat (map f vals))) = f (vals ! i)"
proof -
  have v: "vals = take i vals @ vals ! i # drop (Suc i) vals"
    using assms by (simp add: id_take_nth_drop)
  have t: "take (Suc i) vals = take i vals @ [vals ! i]"
    using assms by (simp add: take_Suc_conv_app_nth)
  have "concat (map f vals) =
      concat (map f (take i vals)) @ f (vals ! i) @ concat (map f (drop (Suc i) vals))"
    by (subst v) simp
  then show ?thesis by (simp add: t)
qed

lemma pack_u32_offsets:
  assumes "map_result pack_u32 offs = Inr obs"
  shows "obs = map (le_bytes 4) offs" and "\<forall>x \<in> set offs. x < 2 ^ 32"
proof -
  from assms have la: "list_all2 (\<lambda>x b. pack_u32 x = Inr b) offs obs"
    by (simp add: map_result_Inr)
  then have len: "length obs = length offs" by (simp add: list_all2_lengthD)
  have each: "pack_u32 (offs ! i) = Inr (obs ! i)" if "i < length offs" for i
    using la that by (simp add: list_all2_conv_all_nth)
  have e: "offs ! i < 2 ^ 32 \<and> obs ! i = le_bytes 4 (offs ! i)" if "i < length offs" for i
    using each [OF that] by (auto simp: pack_u32_def pack_unsigned_def split: if_splits)
  show "obs = map (le_bytes 4) offs"
    using len e by (simp add: list_eq_iff_nth_eq)
  show "\<forall>x \<in> set offs. x < 2 ^ 32"
    using e by (auto simp: in_set_conv_nth)
qed

lemma unpack_from_concat:
  assumes "\<forall>b \<in> set bs. length b = k" and "i < length bs"
  shows "unpack_from k (concat bs @ rest) (i * k) = Inr (le_nat (bs ! i))"
proof -
  have l: "length (concat bs) = length bs * k"
    using assms(1) by (rule length_concat_fixed)
  have "Suc i \<le> length bs" using assms(2) by simp
  then have "Suc i * k \<le> length bs * k" by (rule mult_le_mono1)
  then have le: "i * k + k \<le> length (concat bs)" using l by simp
  then have "take k (drop (i * k) (concat bs @ rest)) = take k (drop (i * k) (concat bs))"
    by simp
  also have "\<dots> = bs ! i" using assms by (rule concat_fixed_slice)
  finally show ?thesis using le by (simp add: unpack_from_def)
qed

lemma decode_string_block:
  assumes blk: "build_uncompressed_block ext ''STRING'' vals = Inr blk"
    and dt: "dtype meta = DT_STRING" and nv: "num_values meta = length vals"
    and strs: "\<forall>v \<in> set vals. is_str v"
  shows "decode_values meta blk = Inr (map PyStr vals)"
proof -
  define offs where "offs = string_offsets 0 vals"
  define payload where "payload = concat (map utf8_encode vals)"
  define n where "n = length vals"
  from blk obtain obs where obs: "map_result pack_u32 offs = Inr obs"
    and b: "blk = concat obs @ payload"
    by (auto simp: build_uncompressed_block_def Let_def bindr_eq_Inr offs_def payload_def)
  note po = pack_u32_offsets [OF obs]
  have lobs: "length obs = n + 1" by (simp add: po(1) offs_def n_def)
  have four: "\<forall>x \<in> set obs. length x = 4" by (simp add: po(1))
  have un: "unpack_from 4 blk (i * 4) = Inr (offs ! i)" if "i < n + 1" for i
  proof -
    have i: "i < length obs" "i < length offs" using that lobs by (simp_all add: po(1))
    have "unpack_from 4 (concat obs @ payload) (i * 4) = Inr (le_nat (obs ! i))"
      using four i(1) by (rule unpack_from_concat)
    moreover have "offs ! i < 256 ^ 4" using po(2) i(2) by simp
    then have "le_nat (le_bytes 4 (offs ! i)) = offs ! i" by (rule le_nat_le_bytes_id)
    ultimately show ?thesis using i(2) by (simp add: b po(1))
  qed
  have "length offs = n + 1" by (simp add: offs_def n_def)
  then have offs: "map_result (\<lambda>i. unpack_from 4 blk (i * 4)) [0 ..< n + 1] = Inr offs"
    using un by (rule map_result_upt)
  have "length (concat obs) = length obs * 4" using four by (rule length_concat_fixed)
  then have sblob: "drop (4 * (n + 1)) blk = payload" by (simp add: b lobs)
  have dec: "bindr (utf8_decode (drop (offs ! i) (take (offs ! (i + 1)) payload)))
               (\<lambda>s. Inr (PyStr s)) = Inr (map PyStr vals ! i)" if "i < n" for i
  proof -
    from that have i: "i < length vals" by (simp add: n_def)
    then have "i \<le> length vals" "Suc i \<le> length vals" by simp_all
    then have o: "offs ! i = length (concat (map utf8_encode (take i vals)))"
      "offs ! (i + 1) = length (concat (map utf8_encode (take (Suc i) vals)))"
      by (simp_all add: offs_def string_offsets_nth)
    have "drop (offs ! i) (take (offs ! (i + 1)) payload) = utf8_encode (vals ! i)"
      unfolding o payload_def using i by (rule payload_slice)
    moreover have "is_str (vals ! i)" using strs i by simp
    ultimately show ?thesis using i by (simp add: utf8_decode_encode)
  qed
  have "length (map PyStr vals) = n" by (simp add: n_def)
  then have "map_result (\<lambda>i. bindr (utf8_decode (drop (offs ! i) (take (offs ! (i + 1)) payload)))
               (\<lambda>s. Inr (PyStr s))) [0 ..< n] = Inr (map PyStr vals)"
    using dec by (rule map_result_upt)
  then show ?thesis
    using offs sblob dt nv
    by (simp add: decode_values_def Let_def DT_STRING_def DT_INT32_def DT_FLOAT64_def n_def)
qed

lemma decode_int32_block:
  assumes blk: "build_uncompressed_block ext ''INT32'' vals = Inr blk"
    and dt: "dtype meta = DT_INT32" and nv: "num_values meta = length vals"
  shows "\<exists>ns. map_result (int32_value ext) vals = Inr ns \<and>
           decode_values meta blk = Inr (map PyInt ns)"
proof -
  from blk obtain bs where
    bs: "map_result (\<lambda>v. bindr (int32_value ext v) pack_i32) vals = Inr bs" and b: "blk = concat bs"
    by (auto simp: build_uncompressed_block_def bindr_eq_Inr)
  from bs have la: "list_all2 (\<lambda>v b. bindr (int32_value ext v) pack_i32 = Inr b) vals bs"
    by (simp add: map_result_Inr)
  then have len: "length bs = length vals" by (simp add: list_all2_lengthD)
  have each: "\<exists>n. int32_value ext (vals ! j) = Inr n \<and> pack_i32 n = Inr (bs ! j)"
    if "j < length vals" for j
    using la that by (simp add: list_all2_conv_all_nth bindr_eq_Inr)
  define ns where "ns = map (\<lambda>b. signed32 (le_nat b)) bs"
  have val: "int32_value ext (vals ! j) = Inr (ns ! j)" if "j < length vals" for j
  proof -
    from each [OF that] obtain n where n: "int32_value ext (vals ! j) = Inr n"
      "pack_i32 n = Inr (bs ! j)" by blast
    from signed32_pack_i32 [OF n(2)] n(1) that len show ?thesis by (simp add: ns_def)
  qed
  have four: "\<forall>x \<in> set bs. length x = 4"
  proof
    fix x assume "x \<in> set bs"
    then obtain j where "j < length bs" "x = bs ! j" by (auto simp: in_set_conv_nth)
    with each [of j] len show "length x = 4" by (auto dest: pack_i32_length)
  qed
  have "map_result (int32_value ext) vals = Inr ns"
    using val len by (simp add: map_result_Inr list_all2_conv_all_nth ns_def)
  moreover have "map_result (\<lambda>i. bindr (unpack_from 4 blk (i * 4)) (\<lambda>u. Inr (PyInt (signed32 u))))
      [0 ..< length vals] = Inr (map PyInt ns)"
  proof (rule map_result_upt)
    show "length (map PyInt ns) = length vals" by (simp add: ns_def len)
    fix i assume i: "i < length vals"
    then have "unpack_from 4 (concat bs @ []) (i * 4) = Inr (le_nat (bs ! i))"
      using four len by (intro unpack_from_concat) simp_all
    then show "bindr (unpack_from 4 blk (i * 4)) (\<lambda>u. Inr (PyInt (signed32 u))) =
        Inr (map PyInt ns ! i)"
      using i len by (simp add: b ns_def)
  qed
  ultimately show ?thesis using dt nv by (auto simp: decode_values_def)
qed

lemma of_nat_le_nat_pack_f64: "of_nat (le_nat (pack_f64 x)) = x"
proof -
  have "unat x < 2 ^ 64" using unsigned_less [of x] by simp
  then have "unat x < 256 ^ 8" by simp
  then have "le_nat (le_bytes 8 (unat x)) = unat x" by (rule le_nat_le_bytes_id)
  then show ?thesis by (simp add: pack_f64_def)
qed

lemma decode_float64_block:
  assumes blk: "build_uncompressed_block ext ''FLOAT64'' vals = Inr blk"
    and dt: "dtype meta = DT_FLOAT64" and nv: "num_values meta = length vals"
  shows "\<exists>xs. map_result (float64_value ext) vals = Inr xs \<and>
           decode_values meta blk = Inr (map PyFloat xs)"
proof -
  let ?f = "\<lambda>v. bindr (float64_value ext v) (\<lambda>x. Inr (pack_f64 x))"
  from blk obtain bs where bs: "map_result ?f vals = Inr bs" and b: "blk = concat bs"
    by (auto simp: build_uncompressed_block_def bindr_eq_Inr)
  from bs have la: "list_all2 (\<lambda>v b. ?f v = Inr b) vals bs"
    by (simp add: map_result_Inr)
  then have len: "length bs = length vals" by (simp add: list_all2_lengthD)
  have each: "\<exists>x. float64_value ext (vals ! j) = Inr x \<and> pack_f64 x = bs ! j"
    if "j < length vals" for j
    using la that by (simp add: list_all2_conv_all_nth bindr_eq_Inr)
  define xs :: "float64 list" where "xs = map (\<lambda>b. of_nat (le_nat b)) bs"
  have val: "float64_value ext (vals ! j) = Inr (xs ! j)" if "j < length vals" for j
  proof -
    from each [OF that] obtain x where x: "float64_value ext (vals ! j) = Inr x"
      "pack_f64 x = bs ! j" by blast
    from of_nat_le_nat_pack_f64 [of x] x that len show ?thesis by (simp add: xs_def)
  qed
  have eight: "\<forall>x \<in> set bs. length x = 8"
  proof
    fix x assume "x \<in> set bs"
    then obtain j where "j < length bs" "x = bs ! j" by (auto simp: in_set_conv_nth)
    with each [of j] len have "\<exists>y. pack_f64 y = x" by auto
    then show "length x = 8" by (auto simp: pack_f64_def)
  qed
  have "map_result (float64_value ext) vals = Inr xs"
    using val len by (simp add: map_result_Inr list_all2_conv_all_nth xs_def)
  moreover have "map_result (\<lambda>i. bindr (unpack_from 8 blk (i * 8)) (\<lambda>u. Inr (PyFloat (of_nat u))))
      [0 ..< length vals] = Inr (map PyFloat xs)"
  proof (rule map_result_upt)
    show "length (map PyFloat xs) = length vals" by (simp add: xs_def len)
    fix i assume i: "i < length vals"
    then have "unpack_from 8 (concat bs @ []) (i * 8) = Inr (le_nat (bs ! i))"
      using eight len by (intro unpack_from_concat) simp_all
    then show "bindr (unpack_from 8 blk (i * 8)) (\<lambda>u. Inr (PyFloat (of_nat u))) =
        Inr (map PyFloat xs ! i)"
      using i len by (simp add: b xs_def)
  qed
  ultimately show ?thesis
    using dt nv by (auto simp: decode_values_def DT_INT32_def DT_FLOAT64_def)
qed


subsection \<open>Layout of a STRING block\<close>

lemma length_concat_take_mono:
  assumes "i \<le> j"
  shows "length (concat (map f (take i xs))) \<le> length (concat (map f (take j xs)))"
proof -
  from assms obtain d where "j = i + d" by (auto simp: le_iff_add)
  then have "take j xs = take i xs @ take d (drop i xs)" by (simp add: take_add)
  then show ?thesis by simp
qed

lemma sorted_string_offsets: "sorted (string_offsets 0 vals)"
proof -
  have "string_offsets 0 vals ! i \<le> string_offsets 0 vals ! j"
    if "i \<le> j" "j < length (string_offsets 0 vals)" for i j
  proof -
    from that have "j \<le> length vals" "i \<le> length vals" by simp_all
    then show ?thesis
      using length_concat_take_mono [OF that(1), of utf8_encode vals]
      by (simp add: string_offsets_nth)
  qed
  then show ?thesis by (simp add: sorted_iff_nth_mono)
qed

text \<open>
  Claim C8. A STRING block that the encoder produced for \<open>n\<close> values is \<open>n + 1\<close>
  little-endian 4-byte offsets followed by the concatenated encodings of the values. The
  offsets are non-decreasing, the first is 0, the last is the length of the payload, each
  fits 32 bits, and the bytes of value \<open>i\<close> are the payload between offset \<open>i\<close> and offset
  \<open>i + 1\<close>. The decoder, given the block and the value count \<open>n\<close>, returns the values.
\<close>

theorem string_block_layout:
  assumes "build_uncompressed_block ext ''STRING'' vals = Inr blk"
  shows "blk = concat (map (le_bytes 4) (string_offsets 0 vals)) @ concat (map utf8_encode vals) \<and>
     length (string_offsets 0 vals) = length vals + 1 \<and>
     sorted (string_offsets 0 vals) \<and>
     string_offsets 0 vals ! 0 = 0 \<and>
     string_offsets 0 vals ! length vals = length (concat (map utf8_encode vals)) \<and>
     (\<forall>x \<in> set (string_offsets 0 vals). x < 2 ^ 32) \<and>
     (\<forall>i < length vals.
        drop (string_offsets 0 vals ! i)
          (take (string_offsets 0 vals ! (i + 1)) (concat (map utf8_encode vals))) =
        utf8_encode (vals ! i)) \<and>
     ((\<forall>v \<in> set vals. is_str v) \<longrightarrow> dtype meta = DT_STRING \<longrightarrow>
      num_values meta = length vals \<longrightarrow> decode_values meta blk = Inr (map PyStr vals))"
proof -
  from assms obtain obs where obs: "map_result pack_u32 (string_offsets 0 vals) = Inr obs"
    and b: "blk = concat obs @ concat (map utf8_encode vals)"
    by (auto simp: build_uncompressed_block_def Let_def bindr_eq_Inr)
  note po = pack_u32_offsets [OF obs]
  have slices: "\<forall>i < length vals.
      drop (string_offsets 0 vals ! i)
        (take (string_offsets 0 vals ! (i + 1)) (concat (map utf8_encode vals))) =
      utf8_encode (vals ! i)"
  proof (intro allI impI)
    fix i assume i: "i < length vals"
    then have "i \<le> length vals" "Suc i \<le> length vals" by simp_all
    then have o: "string_offsets 0 vals ! i = length (concat (map utf8_encode (take i vals)))"
      "string_offsets 0 vals ! (i + 1) = length (concat (map utf8_encode (take (Suc i) vals)))"
      by (simp_all add: string_offsets_nth)
    show "drop (string_offsets 0 vals ! i)
        (take (string_offsets 0 vals ! (i + 1)) (concat (map utf8_encode vals))) =
      utf8_encode (vals ! i)"
      unfolding o using i by (rule payload_slice)
  qed
  have first: "string_offsets 0 vals ! 0 = 0"
    using string_offsets_nth [of 0 vals 0] by simp
  have last: "string_offsets 0 vals ! length vals = length (concat (map utf8_encode vals))"
    using string_offsets_nth [of "length vals" vals 0] by simp
  have dec: "(\<forall>v \<in> set vals. is_str v) \<longrightarrow> dtype meta = DT_STRING \<longrightarrow>
      num_values meta = length vals \<longrightarrow> decode_values meta blk = Inr (map PyStr vals)"
    using decode_string_block [OF assms, of meta] by blast
  from b po first last slices dec sorted_string_offsets [of vals] show ?thesis
    by simp
qed

lemma string_block_example:
  "build_uncompressed_block example_ext ''STRING'' [''hi'', '''', ''a''] =
     Inr [0, 0, 0, 0, 2, 0, 0, 0, 2, 0, 0, 0, 3, 0, 0, 0, 104, 105, 97]"
  by (simp add: build_uncompressed_block_def pack_u32_def pack_unsigned_def le_bytes_4
      utf8_encode_def byte_of_char_def)

lemma is_str_examples: "\<forall>v \<in> set [''hi'', '''', ''a'']. is_str v"
  by (simp add: is_str_def)

theorem string_block_layout_witness:
  "build_uncompressed_block example_ext ''STRING'' [''hi'', '''', ''a''] =
     Inr [0, 0, 0, 0, 2, 0, 0, 0, 2, 0, 0, 0, 3, 0, 0, 0, 104, 105, 97] \<and>
   string_offsets 0 [''hi'', '''', ''a''] = [0, 2, 2, 3] \<and>
   decode_values
     \<lparr>name = ''s'', dtype = 2, block_offset = 0, compressed_size = 19,
      uncompressed_size = 19, num_values = 3\<rparr>
     [0, 0, 0, 0, 2, 0, 0, 0, 2, 0, 0, 0, 3, 0, 0, 0, 104, 105, 97] =
     Inr [PyStr ''hi'', PyStr '''', PyStr ''a'']"
  using string_block_layout [OF string_block_example,
      of "\<lparr>name = ''s'', dtype = 2, block_offset = 0, compressed_size = 19,
           uncompressed_size = 19, num_values = 3\<rparr>"]
    string_block_example is_str_examples
  by (simp add: DT_STRING_def utf8_encode_def)


subsection \<open>The parser reads back what the writer serialised\<close>

lemma fh_read_append: "length a = n \<Longrightarrow> fh_read n (a @ r) = (a, r)"
  by (simp add: fh_read_def)

lemma unpack_unsigned_le_bytes: "n < 256 ^ k \<Longrightarrow> unpack_unsigned k (le_bytes k n) = Inr n"
  by (simp add: unpack_unsigned_def le_nat_le_bytes_id)

lemma pack_unsigned_Inr:
  "pack_unsigned k v = Inr b \<longleftrightarrow> v < 256 ^ k \<and> b = le_bytes k v"
  by (auto simp: pack_unsigned_def)

lemma cat_results_map:
  "cat_results (map f xs) = bindr (map_result f xs) (\<lambda>bs. Inr (concat bs))"
proof (induction xs)
  case Nil
  then show ?case by simp
next
  case (Cons x xs)
  then show ?case
    by (cases "f x"; cases "map_result f xs") simp_all
qed

lemma cat_results_Cons_Inr:
  "cat_results (r # rs) = Inr b \<longleftrightarrow>
     (\<exists>x y. r = Inr x \<and> cat_results rs = Inr y \<and> b = x @ y)"
  by (cases r; cases "cat_results rs") auto

text \<open>The bytes of one directory entry.\<close>

lemma dir_entry_Inr:
  "dir_entry cm (Inr off) (Inr cs) (Inr us) nrows = Inr b \<longleftrightarrow>
     (\<exists>dt. dtype_tag (snd cm) = Inr dt \<and>
        length (utf8_encode (fst cm)) < 256 ^ 2 \<and> off < 256 ^ 8 \<and> cs < 256 ^ 8 \<and>
        us < 256 ^ 8 \<and> nrows < 256 ^ 8 \<and>
        b = le_bytes 2 (length (utf8_encode (fst cm))) @ utf8_encode (fst cm) @ le_bytes 1 dt @
            le_bytes 8 off @ le_bytes 8 cs @ le_bytes 8 us @ le_bytes 8 nrows)"
proof -
  have dt: "dtype_tag t = Inr d \<Longrightarrow> d < 256 ^ 1" for t d
    by (auto simp: dtype_tag_def split: if_splits)
  show ?thesis
    unfolding dir_entry_def Let_def cat_results_Cons_Inr
    by (cases "dtype_tag (snd cm)")
      (auto simp: pack_u8_def pack_u16_def pack_u64_def pack_unsigned_Inr dest: dt)
qed

lemma parse_entry_bytes:
  assumes "is_str nm" and "length (utf8_encode nm) < 256 ^ 2" and "dt < 256 ^ 1"
    and "off < 256 ^ 8" and "cs < 256 ^ 8" and "us < 256 ^ 8" and "nv < 256 ^ 8"
  shows "parse_entry
           (le_bytes 2 (length (utf8_encode nm)) @ utf8_encode nm @ le_bytes 1 dt @
            le_bytes 8 off @ le_bytes 8 cs @ le_bytes 8 us @ le_bytes 8 nv @ rest) =
         Inr (\<lparr>name = nm, dtype = dt, block_offset = off, compressed_size = cs,
               uncompressed_size = us, num_values = nv\<rparr>, rest)"
  unfolding parse_entry_def
  using assms
  by (simp add: fh_read_append unpack_unsigned_le_bytes utf8_decode_encode
      del: le_bytes.simps power_numeral)

lemma parse_entry_entry_bytes:
  "wf_meta m \<Longrightarrow> parse_entry (entry_bytes m @ rest) = Inr (m, rest)"
  using parse_entry_bytes [of "name m" "dtype m" "block_offset m" "compressed_size m"
      "uncompressed_size m" "num_values m" rest]
  by (simp add: wf_meta_def entry_bytes_def del: le_bytes.simps power_numeral)

lemma parse_directory_entries:
  "\<forall>m \<in> set ms. wf_meta m \<Longrightarrow>
   parse_directory (length ms) (concat (map entry_bytes ms) @ rest) = Inr (ms, rest)"
proof (induction ms)
  case Nil
  then show ?case by simp
next
  case (Cons m ms)
  then have "parse_entry (entry_bytes m @ concat (map entry_bytes ms) @ rest) =
      Inr (m, concat (map entry_bytes ms) @ rest)"
    by (simp add: parse_entry_entry_bytes)
  then show ?case using Cons by simp
qed

lemma header_fixed_Inr:
  "header_fixed sj nrows ncols = Inr hf \<longleftrightarrow>
     length sj < 256 ^ 4 \<and> nrows < 256 ^ 8 \<and> ncols < 256 ^ 4 \<and>
     hf = fixed_prefix @ le_bytes 4 (length sj) @ sj @ le_bytes 8 nrows @ le_bytes 4 ncols"
proof -
  have m: "pad_magic (utf8_encode MAGIC) = [67, 70, 73, 76, 69, 118, 48, 49]"
    by (simp add: pad_magic_def utf8_encode_def MAGIC_def byte_of_char_def)
  have v: "pack_u8 VERSION = Inr [1]" "pack_u8 ENDIANNESS = Inr [0]"
    by (simp_all add: pack_u8_def pack_unsigned_def VERSION_def ENDIANNESS_def)
  have r: "pack_u16 RESERVED = Inr [0, 0]"
  proof -
    have "(2::nat) = Suc (Suc 0)" by simp
    then have "le_bytes 2 0 = [0, 0]" by (simp only: le_bytes.simps) simp
    then show ?thesis by (simp add: pack_u16_def pack_unsigned_def RESERVED_def)
  qed
  show ?thesis
    unfolding header_fixed_def cat_results_Cons_Inr m v r
    by (auto simp: pack_u32_def pack_u64_def pack_unsigned_Inr fixed_prefix_def
        simp del: le_bytes.simps power_numeral)
qed

lemma parse_header_bytes:
  assumes js: "is_str js" "json_loads ext js = Some sch"
    and b: "length (utf8_encode js) < 256 ^ 4" "nrows < 256 ^ 8" "length ms < 256 ^ 4"
    and wf: "\<forall>m \<in> set ms. wf_meta m"
    and fl: "file = fixed_prefix @ le_bytes 4 (length (utf8_encode js)) @ utf8_encode js @
        le_bytes 8 nrows @ le_bytes 4 (length ms) @ concat (map entry_bytes ms) @ rest"
  shows "parse_header ext file =
     Inr \<lparr>path = file, schema = sch, num_rows = nrows, num_columns = length ms, columns = ms\<rparr>"
proof -
  define t1 where "t1 = le_bytes 4 (length (utf8_encode js)) @ utf8_encode js @
        le_bytes 8 nrows @ le_bytes 4 (length ms) @ concat (map entry_bytes ms) @ rest"
  define t2 where "t2 = utf8_encode js @
        le_bytes 8 nrows @ le_bytes 4 (length ms) @ concat (map entry_bytes ms) @ rest"
  define t3 where "t3 = le_bytes 8 nrows @ le_bytes 4 (length ms) @ concat (map entry_bytes ms) @ rest"
  define t4 where "t4 = concat (map entry_bytes ms) @ rest"
  have r1: "fh_read 12 file = (fixed_prefix, t1)"
    unfolding fl t1_def [symmetric] by (simp add: fh_read_def fixed_prefix_def)
  have mg: "rstrip_zero (take 8 fixed_prefix) = utf8_encode ''CFILEv01''"
    by (simp add: rstrip_zero_def fixed_prefix_def utf8_encode_def byte_of_char_def)
  have ve: "unat (fixed_prefix ! 8) = 1" "unat (fixed_prefix ! 9) = 0" "length fixed_prefix = 12"
    by (simp_all add: fixed_prefix_def)
  have r2: "fh_read 4 t1 = (le_bytes 4 (length (utf8_encode js)), t2)"
    unfolding t1_def t2_def by (rule fh_read_append) simp
  have u2: "unpack_unsigned 4 (le_bytes 4 (length (utf8_encode js))) = Inr (length (utf8_encode js))"
    using b(1) by (rule unpack_unsigned_le_bytes)
  have r3: "fh_read (length (utf8_encode js)) t2 = (utf8_encode js, t3)"
    unfolding t2_def t3_def by (rule fh_read_append) simp
  have d3: "utf8_decode (utf8_encode js) = Inr js" using js(1) by (rule utf8_decode_encode)
  have r4: "fh_read 12 t3 = (le_bytes 8 nrows @ le_bytes 4 (length ms), t4)"
  proof -
    have "t3 = (le_bytes 8 nrows @ le_bytes 4 (length ms)) @ t4" by (simp add: t3_def t4_def)
    then show ?thesis by (simp only: fh_read_append length_append length_le_bytes)
  qed
  have g1: "take 8 (le_bytes 8 nrows @ le_bytes 4 (length ms)) = le_bytes 8 nrows"
    "take 4 (drop 8 (le_bytes 8 nrows @ le_bytes 4 (length ms))) = le_bytes 4 (length ms)"
    by simp_all
  have u4: "unpack_unsigned 8 (le_bytes 8 nrows) = Inr nrows"
    "unpack_unsigned 4 (le_bytes 4 (length ms)) = Inr (length ms)"
    using b(2,3) by (simp_all only: unpack_unsigned_le_bytes)
  have pd: "parse_directory (length ms) t4 = Inr (ms, rest)"
    unfolding t4_def using wf by (rule parse_directory_entries)
  show ?thesis
    unfolding parse_header_def
    by (simp add: r1 mg ve r2 u2 r3 d3 js(2) r4 g1 u4 pd Let_def
        del: le_bytes.simps power_numeral)
qed

lemma length_entry_bytes: "length (entry_bytes m) = 35 + length (utf8_encode (name m))"
  by (simp add: entry_bytes_def)

lemma dir_entry_meta:
  assumes "dir_entry cm ro rc ru n = Inr b"
  shows "\<exists>off cs us. ro = Inr off \<and> rc = Inr cs \<and> ru = Inr us \<and>
           b = entry_bytes (meta_of cm off cs us n) \<and> known_type (snd cm) \<and>
           length (utf8_encode (fst cm)) < 256 ^ 2 \<and> off < 256 ^ 8 \<and> cs < 256 ^ 8 \<and>
           us < 256 ^ 8 \<and> n < 256 ^ 8"
proof -
  from assms obtain off cs us where r: "ro = Inr off" "rc = Inr cs" "ru = Inr us"
    unfolding dir_entry_def Let_def cat_results_Cons_Inr
    by (auto simp: bindr_eq_Inr)
  from assms [unfolded r dir_entry_Inr] obtain dt where
    dt: "dtype_tag (snd cm) = Inr dt"
    and bnd: "length (utf8_encode (fst cm)) < 256 ^ 2" "off < 256 ^ 8" "cs < 256 ^ 8"
      "us < 256 ^ 8" "n < 256 ^ 8"
    and b: "b = le_bytes 2 (length (utf8_encode (fst cm))) @ utf8_encode (fst cm) @ le_bytes 1 dt @
            le_bytes 8 off @ le_bytes 8 cs @ le_bytes 8 us @ le_bytes 8 n"
    by blast
  from dt have k: "known_type (snd cm)"
    and d: "dt = (if snd cm = ''INT32'' then 0 else if snd cm = ''FLOAT64'' then 1 else 2)"
    by (auto simp: dtype_tag_def known_type_def split: if_splits)
  have "b = entry_bytes (meta_of cm off cs us n)"
    unfolding b d by (simp add: entry_bytes_def meta_of_def del: le_bytes.simps)
  with r k bnd show ?thesis by blast
qed

lemma wf_meta_of:
  assumes "is_str (fst cm)" "length (utf8_encode (fst cm)) < 256 ^ 2" "off < 256 ^ 8"
    "cs < 256 ^ 8" "us < 256 ^ 8" "n < 256 ^ 8"
  shows "wf_meta (meta_of cm off cs us n)"
  using assms by (simp add: wf_meta_def meta_of_def)

lemma nth_result_Inr: "nth_result xs i = Inr x \<longleftrightarrow> i < length xs \<and> x = xs ! i"
  by (auto simp: nth_result_def)

lemma length_plan_offsets [simp]: "length (plan_offsets cur comps) = length comps"
  by (induction comps arbitrary: cur) simp_all

lemma write_cfile_steps:
  assumes "write_cfile ext sch hn cols = Inr file"
  shows "\<exists>ubs header h.
     cols \<noteq> [] \<and>
     map_result (\<lambda>(col_meta, vals). build_uncompressed_block ext (snd col_meta) vals)
       (zip sch cols) = Inr ubs \<and>
     cat_results
       (header_fixed (utf8_encode (json_dumps ext sch)) (length (cols ! 0)) (length sch)
        # map (\<lambda>col_meta. dir_entry col_meta (Inr 0) (Inr 0) (Inr 0) (length (cols ! 0))) sch) =
       Inr header \<and>
     cat_results
       (header_fixed (utf8_encode (json_dumps ext sch)) (length (cols ! 0)) (length sch)
        # map (\<lambda>(i, col_meta).
                 dir_entry col_meta
                   (nth_result (plan_offsets (length header + (8 - length header mod 8) mod 8)
                      (map (zlib_compress ext) ubs)) i)
                   (bindr (nth_result (map (zlib_compress ext) ubs) i) (\<lambda>c. Inr (length c)))
                   (bindr (nth_result ubs i) (\<lambda>u. Inr (length u)))
                   (length (cols ! 0)))
            (enumerate 0 sch)) = Inr h \<and>
     file = h @ replicate ((8 - length header mod 8) mod 8) 0 @
       write_blocks (length h + (8 - length header mod 8) mod 8) (map (zlib_compress ext) ubs)"
proof -
  from assms obtain col0 where c0: "nth_result cols 0 = Inr col0"
    by (auto simp: write_cfile_def bindr_eq_Inr)
  then have ne: "cols \<noteq> []" and col0: "col0 = cols ! 0"
    by (auto simp: nth_result_Inr)
  from assms show ?thesis
    unfolding write_cfile_def c0 bindr_Inr Let_def col0 bindr_eq_Inr
    using ne by blast
qed


subsection \<open>What a successful write has produced\<close>

lemma length_concat_list_all2:
  "list_all2 (\<lambda>x e. length e = g x) xs es \<Longrightarrow> length (concat es) = sum_list (map g xs)"
  by (induction xs es rule: list_all2_induct) simp_all

lemma length_header_fixed:
  "header_fixed sj nrows ncols = Inr hf \<Longrightarrow> length hf = 28 + length sj"
  by (auto simp: header_fixed_Inr fixed_prefix_def)

lemma name_meta_of [simp]: "name (meta_of cm off cs us n) = fst cm"
  by (simp add: meta_of_def)

lemma pass_entries:
  assumes "map_result (\<lambda>(i, cm). dir_entry cm (ro i) (rc i) (ru i) n) (enumerate 0 sch) = Inr es"
  shows "length es = length sch"
    and "i < length sch \<Longrightarrow> dir_entry (sch ! i) (ro i) (rc i) (ru i) n = Inr (es ! i)"
proof -
  from assms have la: "list_all2 (\<lambda>x e. (case x of (i, cm) \<Rightarrow> dir_entry cm (ro i) (rc i) (ru i) n) = Inr e)
      (enumerate 0 sch) es"
    by (simp add: map_result_Inr)
  then show len: "length es = length sch"
    by (auto dest: list_all2_lengthD)
  show "dir_entry (sch ! i) (ro i) (rc i) (ru i) n = Inr (es ! i)" if "i < length sch"
    using la that by (auto simp: list_all2_conv_all_nth nth_enumerate_eq)
qed

lemma write_cfile_anatomy:
  assumes w: "write_cfile ext sch hn cols = Inr file"
  defines "sj \<equiv> utf8_encode (json_dumps ext sch)"
    and "nrows \<equiv> length (cols ! 0)"
    and "hlen \<equiv> header_length (utf8_encode (json_dumps ext sch)) sch"
  shows "\<exists>ubs hf.
     cols \<noteq> [] \<and> length ubs = length sch \<and> length sch \<le> length cols \<and>
     (\<forall>i < length sch. build_uncompressed_block ext (snd (sch ! i)) (cols ! i) = Inr (ubs ! i)) \<and>
     header_fixed sj nrows (length sch) = Inr hf \<and>
     file = hf @ concat (map entry_bytes
              (written_metas sch (plan_offsets (align8 hlen) (map (zlib_compress ext) ubs))
                 (map (zlib_compress ext) ubs) ubs nrows)) @
            replicate (align8 hlen - hlen) 0 @
            write_blocks (align8 hlen) (map (zlib_compress ext) ubs) \<and>
     length hf + length (concat (map entry_bytes
              (written_metas sch (plan_offsets (align8 hlen) (map (zlib_compress ext) ubs))
                 (map (zlib_compress ext) ubs) ubs nrows))) = hlen \<and>
     (\<forall>i < length sch. known_type (snd (sch ! i)) \<and>
        length (utf8_encode (fst (sch ! i))) < 256 ^ 2 \<and>
        plan_offsets (align8 hlen) (map (zlib_compress ext) ubs) ! i < 256 ^ 8 \<and>
        length (zlib_compress ext (ubs ! i)) < 256 ^ 8 \<and> length (ubs ! i) < 256 ^ 8) \<and>
     nrows < 256 ^ 8"
proof -
  from write_cfile_steps [OF w] obtain ubs header h where
    ne: "cols \<noteq> []"
    and ub: "map_result (\<lambda>(col_meta, vals). build_uncompressed_block ext (snd col_meta) vals)
       (zip sch cols) = Inr ubs"
    and p1: "cat_results (header_fixed sj nrows (length sch)
        # map (\<lambda>col_meta. dir_entry col_meta (Inr 0) (Inr 0) (Inr 0) nrows) sch) = Inr header"
    and p2: "cat_results (header_fixed sj nrows (length sch)
        # map (\<lambda>(i, col_meta).
                 dir_entry col_meta
                   (nth_result (plan_offsets (length header + (8 - length header mod 8) mod 8)
                      (map (zlib_compress ext) ubs)) i)
                   (bindr (nth_result (map (zlib_compress ext) ubs) i) (\<lambda>c. Inr (length c)))
                   (bindr (nth_result ubs i) (\<lambda>u. Inr (length u)))
                   nrows)
            (enumerate 0 sch)) = Inr h"
    and f: "file = h @ replicate ((8 - length header mod 8) mod 8) 0 @
       write_blocks (length h + (8 - length header mod 8) mod 8) (map (zlib_compress ext) ubs)"
    unfolding sj_def nrows_def by blast
  define comps where "comps = map (zlib_compress ext) ubs"
  \<comment> \<open>the encoded blocks\<close>
  from ub have la: "list_all2 (\<lambda>x u. (case x of (cm, vals) \<Rightarrow>
      build_uncompressed_block ext (snd cm) vals) = Inr u) (zip sch cols) ubs"
    by (simp add: map_result_Inr)
  then have lubs: "length ubs = min (length sch) (length cols)"
    by (auto dest: list_all2_lengthD)
  have blocks: "build_uncompressed_block ext (snd (sch ! i)) (cols ! i) = Inr (ubs ! i)"
    if "i < length sch" "i < length cols" for i
    using la that by (auto simp: list_all2_conv_all_nth)
  \<comment> \<open>the first pass\<close>
  from p1 obtain hf d1 where hf: "header_fixed sj nrows (length sch) = Inr hf"
    and d1: "cat_results (map (\<lambda>col_meta. dir_entry col_meta (Inr 0) (Inr 0) (Inr 0) nrows) sch) = Inr d1"
    and header: "header = hf @ d1"
    unfolding cat_results_Cons_Inr by blast
  from d1 obtain es1 where
    es1: "map_result (\<lambda>col_meta. dir_entry col_meta (Inr 0) (Inr 0) (Inr 0) nrows) sch = Inr es1"
    and d1c: "d1 = concat es1"
    by (auto simp: cat_results_map bindr_eq_Inr)
  from es1 have l1: "list_all2 (\<lambda>cm e. dir_entry cm (Inr 0) (Inr 0) (Inr 0) nrows = Inr e) sch es1"
    by (simp add: map_result_Inr)
  have "list_all2 (\<lambda>cm e. length e = 35 + length (utf8_encode (fst cm))) sch es1"
    using l1
  proof (rule list_all2_mono)
    fix cm e assume "dir_entry cm (Inr 0) (Inr 0) (Inr 0) nrows = Inr e"
    from dir_entry_meta [OF this]
    show "length e = 35 + length (utf8_encode (fst cm))"
      by (auto simp: length_entry_bytes)
  qed
  then have "length d1 = (\<Sum>cm\<leftarrow>sch. 35 + length (utf8_encode (fst cm)))"
    unfolding d1c by (rule length_concat_list_all2)
  with length_header_fixed [OF hf] have lh: "length header = hlen"
    by (simp add: header hlen_def header_length_def sj_def)
  have pad: "length header + (8 - length header mod 8) mod 8 = align8 hlen"
    by (simp add: lh align8_def)
  define offs where "offs = plan_offsets (align8 hlen) comps"
  \<comment> \<open>the second pass\<close>
  from p2 obtain d2 where
    d2: "cat_results (map (\<lambda>(i, col_meta).
                 dir_entry col_meta (nth_result offs i)
                   (bindr (nth_result comps i) (\<lambda>c. Inr (length c)))
                   (bindr (nth_result ubs i) (\<lambda>u. Inr (length u))) nrows)
            (enumerate 0 sch)) = Inr d2"
    and h: "h = hf @ d2"
    unfolding pad comps_def [symmetric] offs_def [symmetric] cat_results_Cons_Inr
    using hf by auto
  from d2 obtain es2 where
    es2: "map_result (\<lambda>(i, col_meta).
                 dir_entry col_meta (nth_result offs i)
                   (bindr (nth_result comps i) (\<lambda>c. Inr (length c)))
                   (bindr (nth_result ubs i) (\<lambda>u. Inr (length u))) nrows)
            (enumerate 0 sch) = Inr es2"
    and d2c: "d2 = concat es2"
    by (auto simp: cat_results_map bindr_eq_Inr)
  note pe = pass_entries [OF es2]
  have ent: "i < length ubs \<and> es2 ! i = entry_bytes
        (meta_of (sch ! i) (offs ! i) (length (comps ! i)) (length (ubs ! i)) nrows) \<and>
      known_type (snd (sch ! i)) \<and> length (utf8_encode (fst (sch ! i))) < 256 ^ 2 \<and>
      offs ! i < 256 ^ 8 \<and> length (comps ! i) < 256 ^ 8 \<and> length (ubs ! i) < 256 ^ 8 \<and>
      nrows < 256 ^ 8"
    if i: "i < length sch" for i
  proof -
    from dir_entry_meta [OF pe(2) [OF i]] obtain off cs us where
      r: "nth_result offs i = Inr off"
        "bindr (nth_result comps i) (\<lambda>c. Inr (length c)) = Inr cs"
        "bindr (nth_result ubs i) (\<lambda>u. Inr (length u)) = Inr us"
      and e: "es2 ! i = entry_bytes (meta_of (sch ! i) off cs us nrows)"
      and k: "known_type (snd (sch ! i))" "length (utf8_encode (fst (sch ! i))) < 256 ^ 2"
        "off < 256 ^ 8" "cs < 256 ^ 8" "us < 256 ^ 8" "nrows < 256 ^ 8"
      by blast
    from r have "i < length ubs" "off = offs ! i" "cs = length (comps ! i)" "us = length (ubs ! i)"
      by (auto simp: nth_result_Inr bindr_eq_Inr offs_def comps_def)
    with e k show ?thesis by simp
  qed
  have le: "length sch \<le> length cols" and lu: "length ubs = length sch"
  proof -
    have "length sch \<le> length ubs"
    proof (cases sch)
      case Nil
      then show ?thesis by simp
    next
      case (Cons a list)
      then have "length sch - 1 < length sch" by simp
      from ent [OF this] have "length sch - 1 < length ubs" by blast
      then show ?thesis by simp
    qed
    with lubs show "length sch \<le> length cols" "length ubs = length sch" by simp_all
  qed
  have es2_eq: "es2 = map entry_bytes (written_metas sch offs comps ubs nrows)"
  proof (rule nth_equalityI)
    show "length es2 = length (map entry_bytes (written_metas sch offs comps ubs nrows))"
      by (simp add: pe(1) written_metas_def)
    fix i assume "i < length es2"
    then have i: "i < length sch" by (simp add: pe(1))
    from ent [OF i] have "es2 ! i = entry_bytes
        (meta_of (sch ! i) (offs ! i) (length (comps ! i)) (length (ubs ! i)) nrows)"
      by blast
    then show "es2 ! i = map entry_bytes (written_metas sch offs comps ubs nrows) ! i"
      using i by (simp add: written_metas_def)
  qed
  have l2: "list_all2 (\<lambda>cm e. length e = 35 + length (utf8_encode (fst cm))) sch es2"
  proof (rule list_all2_all_nthI)
    show "length sch = length es2" by (simp add: pe(1))
    fix i assume i: "i < length sch"
    from ent [OF i] have "es2 ! i = entry_bytes
        (meta_of (sch ! i) (offs ! i) (length (comps ! i)) (length (ubs ! i)) nrows)"
      by blast
    then show "length (es2 ! i) = 35 + length (utf8_encode (fst (sch ! i)))"
      by (simp add: length_entry_bytes)
  qed
  have "length d2 = (\<Sum>cm\<leftarrow>sch. 35 + length (utf8_encode (fst cm)))"
    unfolding d2c using l2 by (rule length_concat_list_all2)
  with length_header_fixed [OF hf] have lh2: "length h = hlen"
    by (simp add: h hlen_def header_length_def sj_def)
  have padv: "(8 - length header mod 8) mod 8 = align8 hlen - hlen"
    by (simp add: lh align8_def)
  have ge: "hlen \<le> align8 hlen" by (simp add: align8_def)
  have len_h: "length (hf @ concat (map entry_bytes (written_metas sch offs comps ubs nrows))) = hlen"
    using lh2 unfolding h d2c es2_eq .
  have st: "length (hf @ concat (map entry_bytes (written_metas sch offs comps ubs nrows))) +
      (align8 hlen - hlen) = align8 hlen"
    unfolding len_h using ge by simp
  have fl: "file = hf @ concat (map entry_bytes (written_metas sch offs comps ubs nrows)) @
      replicate (align8 hlen - hlen) 0 @ write_blocks (align8 hlen) comps"
    unfolding f padv h d2c es2_eq comps_def [symmetric] st by (simp only: append_assoc)
  have nr: "nrows < 256 ^ 8"
    using hf by (simp add: header_fixed_Inr)
  have tot: "length hf + length (concat (map entry_bytes (written_metas sch offs comps ubs nrows))) = hlen"
    using lh2 by (simp add: h d2c es2_eq)
  have bl: "\<forall>i < length sch. build_uncompressed_block ext (snd (sch ! i)) (cols ! i) = Inr (ubs ! i)"
    using blocks le by simp
  have bd: "\<forall>i < length sch. known_type (snd (sch ! i)) \<and>
        length (utf8_encode (fst (sch ! i))) < 256 ^ 2 \<and> offs ! i < 256 ^ 8 \<and>
        length (zlib_compress ext (ubs ! i)) < 256 ^ 8 \<and> length (ubs ! i) < 256 ^ 8"
  proof (intro allI impI)
    fix i assume i: "i < length sch"
    with lu have "comps ! i = zlib_compress ext (ubs ! i)" by (simp add: comps_def)
    with ent [OF i] show "known_type (snd (sch ! i)) \<and>
        length (utf8_encode (fst (sch ! i))) < 256 ^ 2 \<and> offs ! i < 256 ^ 8 \<and>
        length (zlib_compress ext (ubs ! i)) < 256 ^ 8 \<and> length (ubs ! i) < 256 ^ 8"
      by metis
  qed
  show ?thesis
    apply (rule exI [of _ ubs])
    apply (rule exI [of _ hf])
    unfolding comps_def [symmetric] offs_def [symmetric]
    using ne lu le bl hf fl tot bd nr
    apply (intro conjI)
    apply assumption+
    done
qed


subsection \<open>Block offsets and block positions\<close>

lemma align8_mod [simp]: "align8 n mod 8 = 0"
proof -
  have "(n + (8 - n mod 8) mod 8) mod 8 = (n mod 8 + (8 - n mod 8) mod 8) mod 8"
    by (simp add: mod_add_left_eq)
  also have "\<dots> = 0"
  proof (cases "n mod 8 = 0")
    case True
    then show ?thesis by simp
  next
    case False
    moreover have "n mod 8 < 8" by simp
    ultimately have "(8 - n mod 8) mod 8 = 8 - n mod 8" by simp
    then show ?thesis using \<open>n mod 8 < 8\<close> by simp
  qed
  finally show ?thesis by (simp add: align8_def)
qed

lemma align8_ge: "n \<le> align8 n"
  by (simp add: align8_def)

lemma align8_id: "n mod 8 = 0 \<Longrightarrow> align8 n = n"
  by (simp add: align8_def)

lemma align8_alt: "align8 n = (if n mod 8 \<noteq> 0 then n + (8 - n mod 8) else n)"
proof (cases "n mod 8 = 0")
  case True
  then show ?thesis by (simp add: align8_def)
next
  case False
  moreover have "n mod 8 < 8" by simp
  ultimately have "(8 - n mod 8) mod 8 = 8 - n mod 8" by simp
  with False show ?thesis by (simp add: align8_def)
qed

lemma plan_offsets_step:
  "plan_offsets cur (c # comps) = cur # plan_offsets (align8 (cur + length c)) comps"
proof -
  have "(let cur' = cur + length c in if cur' mod 8 \<noteq> 0 then cur' + (8 - cur' mod 8) else cur') =
      align8 (cur + length c)"
    unfolding Let_def by (simp only: align8_alt)
  then show ?thesis by (simp only: plan_offsets.simps)
qed

lemma write_blocks_step:
  "write_blocks pos (c # comps) =
     c @ replicate (align8 (pos + length c) - (pos + length c)) 0 @
     write_blocks (align8 (pos + length c)) comps"
proof -
  have "(8 - (pos + length c) mod 8) mod 8 = align8 (pos + length c) - (pos + length c)"
    by (simp add: align8_def)
  moreover have "pos + length c + (align8 (pos + length c) - (pos + length c)) = align8 (pos + length c)"
    using align8_ge [of "pos + length c"] by simp
  ultimately show ?thesis by (simp add: Let_def)
qed

lemma plan_offsets_nth_0: "comps \<noteq> [] \<Longrightarrow> plan_offsets cur comps ! 0 = cur"
  by (cases comps) simp_all

lemma plan_offsets_nth_Suc:
  "Suc i < length comps \<Longrightarrow>
   plan_offsets cur comps ! Suc i = align8 (plan_offsets cur comps ! i + length (comps ! i))"
proof (induction comps arbitrary: cur i)
  case Nil
  then show ?case by simp
next
  case (Cons c comps)
  show ?case
  proof (cases i)
    case 0
    with Cons.prems have "comps \<noteq> []" by auto
    then show ?thesis
      unfolding plan_offsets_step 0 by (simp add: plan_offsets_nth_0)
  next
    case (Suc j)
    with Cons.prems have "Suc j < length comps" by simp
    from Cons.IH [OF this, of "align8 (cur + length c)"] show ?thesis
      unfolding plan_offsets_step Suc by simp
  qed
qed

lemma plan_offsets_aligned:
  "cur mod 8 = 0 \<Longrightarrow> \<forall>x \<in> set (plan_offsets cur comps). x mod 8 = 0"
proof (induction comps arbitrary: cur)
  case Nil
  then show ?case by simp
next
  case (Cons c comps)
  have "\<forall>x \<in> set (plan_offsets (align8 (cur + length c)) comps). x mod 8 = 0"
    by (rule Cons.IH) simp
  then show ?case unfolding plan_offsets_step using Cons.prems by simp
qed

lemma block_at_offset:
  "i < length comps \<Longrightarrow>
   pos \<le> plan_offsets pos comps ! i \<and>
   take (length (comps ! i)) (drop (plan_offsets pos comps ! i - pos) (write_blocks pos comps)) =
     comps ! i"
proof (induction comps arbitrary: pos i)
  case Nil
  then show ?case by simp
next
  case (Cons c comps)
  show ?case
  proof (cases i)
    case 0
    then show ?thesis unfolding plan_offsets_step write_blocks_step by simp
  next
    case (Suc j)
    define q where "q = align8 (pos + length c)"
    from Suc Cons.prems have j: "j < length comps" by simp
    from Cons.IH [OF j, of q]
    have le: "q \<le> plan_offsets q comps ! j"
      and tk: "take (length (comps ! j)) (drop (plan_offsets q comps ! j - q) (write_blocks q comps)) =
        comps ! j"
      by simp_all
    have pq: "pos + length c \<le> q" unfolding q_def by (rule align8_ge)
    define gap where "gap = q - (pos + length c)"
    have l: "length (c @ replicate gap 0) = q - pos" using pq by (simp add: gap_def)
    have "drop (plan_offsets q comps ! j - pos) ((c @ replicate gap 0) @ write_blocks q comps) =
        drop (plan_offsets q comps ! j - q) (write_blocks q comps)"
      using le pq l by (simp del: append_assoc)
    then show ?thesis
      unfolding plan_offsets_step write_blocks_step Suc q_def [symmetric] gap_def [symmetric]
      using le pq tk by simp
  qed
qed


subsection \<open>The reader on a file the writer produced\<close>

lemma written_file_reads:
  assumes w: "write_cfile ext sch hn cols = Inr file"
    and names: "\<forall>cm \<in> set sch. is_str (fst cm)"
    and js: "is_str (json_dumps ext sch)" "json_loads ext (json_dumps ext sch) = Some sch'"
  defines "nrows \<equiv> length (cols ! 0)"
    and "hlen \<equiv> header_length (utf8_encode (json_dumps ext sch)) sch"
  shows "\<exists>ubs.
     cols \<noteq> [] \<and> length ubs = length sch \<and> length sch \<le> length cols \<and>
     (\<forall>i < length sch. build_uncompressed_block ext (snd (sch ! i)) (cols ! i) = Inr (ubs ! i)) \<and>
     (\<forall>i < length sch. known_type (snd (sch ! i))) \<and>
     parse_header ext file =
       Inr \<lparr>path = file, schema = sch', num_rows = nrows, num_columns = length sch,
            columns = written_metas sch (plan_offsets (align8 hlen) (map (zlib_compress ext) ubs))
                        (map (zlib_compress ext) ubs) ubs nrows\<rparr> \<and>
     (\<forall>i < length sch.
        take (length (zlib_compress ext (ubs ! i)))
          (drop (plan_offsets (align8 hlen) (map (zlib_compress ext) ubs) ! i) file) =
        zlib_compress ext (ubs ! i)) \<and>
     take (align8 hlen - hlen) (drop hlen file) = replicate (align8 hlen - hlen) 0"
proof -
  define sj where "sj = utf8_encode (json_dumps ext sch)"
  from write_cfile_anatomy [OF w, folded sj_def nrows_def hlen_def] obtain ubs hf where
    ne: "cols \<noteq> []" and lu: "length ubs = length sch" and le: "length sch \<le> length cols"
    and bl: "\<forall>i < length sch. build_uncompressed_block ext (snd (sch ! i)) (cols ! i) = Inr (ubs ! i)"
    and hf: "header_fixed sj nrows (length sch) = Inr hf"
    and fl: "file = hf @ concat (map entry_bytes
              (written_metas sch (plan_offsets (align8 hlen) (map (zlib_compress ext) ubs))
                 (map (zlib_compress ext) ubs) ubs nrows)) @
            replicate (align8 hlen - hlen) 0 @
            write_blocks (align8 hlen) (map (zlib_compress ext) ubs)"
    and tot: "length hf + length (concat (map entry_bytes
              (written_metas sch (plan_offsets (align8 hlen) (map (zlib_compress ext) ubs))
                 (map (zlib_compress ext) ubs) ubs nrows))) = hlen"
    and bd: "\<forall>i < length sch. known_type (snd (sch ! i)) \<and>
        length (utf8_encode (fst (sch ! i))) < 256 ^ 2 \<and>
        plan_offsets (align8 hlen) (map (zlib_compress ext) ubs) ! i < 256 ^ 8 \<and>
        length (zlib_compress ext (ubs ! i)) < 256 ^ 8 \<and> length (ubs ! i) < 256 ^ 8"
    and nr: "nrows < 256 ^ 8"
    by blast
  define comps where "comps = map (zlib_compress ext) ubs"
  define offs where "offs = plan_offsets (align8 hlen) comps"
  define ms where "ms = written_metas sch offs comps ubs nrows"
  define dir where "dir = concat (map entry_bytes ms)"
  define gap where "gap = replicate (align8 hlen - hlen) (0::byte)"
  note fl' = fl [folded comps_def, folded offs_def, folded ms_def, folded dir_def gap_def]
  note tot' = tot [folded comps_def, folded offs_def, folded ms_def, folded dir_def]
  have lms: "length ms = length sch" by (simp add: ms_def written_metas_def)
  have wf: "\<forall>m \<in> set ms. wf_meta m"
  proof
    fix m assume "m \<in> set ms"
    then obtain i where i: "i < length sch"
      and m: "m = meta_of (sch ! i) (offs ! i) (length (comps ! i)) (length (ubs ! i)) nrows"
      by (auto simp: ms_def written_metas_def)
    from i lu have c: "comps ! i = zlib_compress ext (ubs ! i)" by (simp add: comps_def)
    note bi = bd [rule_format, OF i]
    have b: "length (utf8_encode (fst (sch ! i))) < 256 ^ 2" "offs ! i < 256 ^ 8"
      "length (zlib_compress ext (ubs ! i)) < 256 ^ 8" "length (ubs ! i) < 256 ^ 8"
      unfolding offs_def comps_def
      using bi by simp_all
    from names i have "is_str (fst (sch ! i))" by simp
    then show "wf_meta m" unfolding m c using b nr by (rule wf_meta_of)
  qed
  from hf have hb: "length sj < 256 ^ 4" "length sch < 256 ^ 4"
    and hfe: "hf = fixed_prefix @ le_bytes 4 (length sj) @ sj @ le_bytes 8 nrows @
        le_bytes 4 (length sch)"
    unfolding header_fixed_Inr by blast+
  have "file = fixed_prefix @ le_bytes 4 (length (utf8_encode (json_dumps ext sch))) @
        utf8_encode (json_dumps ext sch) @ le_bytes 8 nrows @ le_bytes 4 (length ms) @
        concat (map entry_bytes ms) @ (gap @ write_blocks (align8 hlen) comps)"
    unfolding fl' hfe sj_def lms dir_def by (simp only: append_assoc)
  with js hb nr wf have ph: "parse_header ext file =
      Inr \<lparr>path = file, schema = sch', num_rows = nrows, num_columns = length ms, columns = ms\<rparr>"
    unfolding sj_def lms [symmetric] by (intro parse_header_bytes) assumption+
  have pre: "length (hf @ dir @ gap) = align8 hlen"
    using tot' align8_ge [of hlen] by (simp add: gap_def)
  have blocks: "take (length (comps ! i)) (drop (offs ! i) file) = comps ! i"
    if i: "i < length sch" for i
  proof -
    from i lu have ic: "i < length comps" by (simp add: comps_def)
    from block_at_offset [OF ic, of "align8 hlen"]
    have ge: "align8 hlen \<le> offs ! i"
      and tk: "take (length (comps ! i))
          (drop (offs ! i - align8 hlen) (write_blocks (align8 hlen) comps)) = comps ! i"
      by (simp_all add: offs_def)
    have "file = (hf @ dir @ gap) @ write_blocks (align8 hlen) comps"
      unfolding fl' by (simp only: append_assoc)
    then have "drop (offs ! i) file =
        drop (offs ! i - align8 hlen) (write_blocks (align8 hlen) comps)"
      using ge pre by (simp only: drop_append) simp
    with tk show ?thesis by simp
  qed
  have gapz: "take (align8 hlen - hlen) (drop hlen file) = replicate (align8 hlen - hlen) 0"
  proof -
    have "file = (hf @ dir) @ gap @ write_blocks (align8 hlen) comps"
      unfolding fl' by (simp only: append_assoc)
    moreover have "length (hf @ dir) = hlen" using tot' by simp
    ultimately have "drop hlen file = gap @ write_blocks (align8 hlen) comps"
      by (metis append_eq_conv_conj)
    then show ?thesis by (simp add: gap_def)
  qed
  have b2: "\<forall>i < length sch.
        take (length (zlib_compress ext (ubs ! i))) (drop (offs ! i) file) =
        zlib_compress ext (ubs ! i)"
  proof (intro allI impI)
    fix i assume i: "i < length sch"
    with lu have "comps ! i = zlib_compress ext (ubs ! i)" by (simp add: comps_def)
    with blocks [OF i] show "take (length (zlib_compress ext (ubs ! i))) (drop (offs ! i) file) =
        zlib_compress ext (ubs ! i)" by simp
  qed
  have kt: "\<forall>i < length sch. known_type (snd (sch ! i))" using bd by blast
  show ?thesis
    apply (rule exI [of _ ubs])
    unfolding comps_def [symmetric] offs_def [symmetric] ms_def [symmetric]
    using ne lu le bl kt ph [unfolded lms] b2 gapz
    apply (intro conjI)
    apply assumption+
    done
qed


subsection \<open>Alignment of the column blocks\<close>

lemma written_metas_nth:
  "i < length sch \<Longrightarrow>
   written_metas sch offs comps ubs n ! i =
     meta_of (sch ! i) (offs ! i) (length (comps ! i)) (length (ubs ! i)) n"
  by (simp add: written_metas_def)

lemma length_written_metas [simp]: "length (written_metas sch offs comps ubs n) = length sch"
  by (simp add: written_metas_def)

lemma meta_of_fields [simp]:
  "block_offset (meta_of cm off cs us n) = off"
  "compressed_size (meta_of cm off cs us n) = cs"
  "uncompressed_size (meta_of cm off cs us n) = us"
  "num_values (meta_of cm off cs us n) = n"
  by (simp_all add: meta_of_def)

text \<open>
  Claim C2. Let a write succeed, the column names be strings and the schema text survive
  the JSON round trip, so that the reader parses the file. Then the directory has one entry
  per schema column; every recorded block offset is a multiple of 8; the first one is the
  header length (28 bytes of fixed fields, the schema blob, and 35 bytes plus the name per
  directory entry) rounded up to a multiple of 8, the bytes in between being zero; each
  further offset is the previous offset plus the previous compressed size, rounded up to a
  multiple of 8; and the compressed block built from column \<open>i\<close> is the span of the file
  that starts at the recorded offset of entry \<open>i\<close> and has its recorded compressed size.
\<close>

theorem block_offsets_aligned:
  assumes "write_cfile ext sch hn cols = Inr file"
    and "\<forall>cm \<in> set sch. is_str (fst cm)"
    and "is_str (json_dumps ext sch)" and "json_loads ext (json_dumps ext sch) = Some sch'"
  shows "\<exists>rd. parse_header ext file = Inr rd \<and>
     length (columns rd) = length sch \<and>
     (\<forall>c \<in> set (columns rd). block_offset c mod 8 = 0) \<and>
     (columns rd \<noteq> [] \<longrightarrow>
        block_offset (columns rd ! 0) =
          align8 (header_length (utf8_encode (json_dumps ext sch)) sch)) \<and>
     take (align8 (header_length (utf8_encode (json_dumps ext sch)) sch) -
             header_length (utf8_encode (json_dumps ext sch)) sch)
       (drop (header_length (utf8_encode (json_dumps ext sch)) sch) file) =
       replicate (align8 (header_length (utf8_encode (json_dumps ext sch)) sch) -
             header_length (utf8_encode (json_dumps ext sch)) sch) 0 \<and>
     (\<forall>i. Suc i < length (columns rd) \<longrightarrow>
        block_offset (columns rd ! Suc i) =
          align8 (block_offset (columns rd ! i) + compressed_size (columns rd ! i))) \<and>
     (\<forall>i < length (columns rd).
        \<exists>ub. build_uncompressed_block ext (snd (sch ! i)) (cols ! i) = Inr ub \<and>
          compressed_size (columns rd ! i) = length (zlib_compress ext ub) \<and>
          take (compressed_size (columns rd ! i)) (drop (block_offset (columns rd ! i)) file) =
            zlib_compress ext ub)"
proof -
  define hlen where "hlen = header_length (utf8_encode (json_dumps ext sch)) sch"
  define nrows where "nrows = length (cols ! 0)"
  from written_file_reads [OF assms, folded hlen_def nrows_def] obtain ubs where
    lu: "length ubs = length sch"
    and ph: "parse_header ext file =
       Inr \<lparr>path = file, schema = sch', num_rows = nrows, num_columns = length sch,
            columns = written_metas sch (plan_offsets (align8 hlen) (map (zlib_compress ext) ubs))
                        (map (zlib_compress ext) ubs) ubs nrows\<rparr>"
    and bu: "\<forall>i < length sch.
        build_uncompressed_block ext (snd (sch ! i)) (cols ! i) = Inr (ubs ! i)"
    and bl: "\<forall>i < length sch.
        take (length (zlib_compress ext (ubs ! i)))
          (drop (plan_offsets (align8 hlen) (map (zlib_compress ext) ubs) ! i) file) =
        zlib_compress ext (ubs ! i)"
    and gap: "take (align8 hlen - hlen) (drop hlen file) = replicate (align8 hlen - hlen) 0"
    by blast
  define comps where "comps = map (zlib_compress ext) ubs"
  define offs where "offs = plan_offsets (align8 hlen) comps"
  define ms where "ms = written_metas sch offs comps ubs nrows"
  note ph' = ph [folded comps_def, folded offs_def, folded ms_def]
  have lc: "length comps = length sch" by (simp add: comps_def lu)
  have lms: "length ms = length sch" by (simp add: ms_def)
  have off: "block_offset (ms ! i) = offs ! i" and cs: "compressed_size (ms ! i) = length (comps ! i)"
    if "i < length sch" for i
    using that by (simp_all add: ms_def written_metas_nth)
  have al: "\<forall>x \<in> set offs. x mod 8 = 0"
    unfolding offs_def by (rule plan_offsets_aligned) simp
  have a1: "\<forall>c \<in> set ms. block_offset c mod 8 = 0"
  proof
    fix c assume "c \<in> set ms"
    then obtain i where i: "i < length sch" and c: "c = ms ! i"
      using lms by (auto simp: in_set_conv_nth)
    from i lc have "offs ! i \<in> set offs" by (simp add: offs_def)
    with al off [OF i] c show "block_offset c mod 8 = 0" by simp
  qed
  have a2: "ms \<noteq> [] \<longrightarrow> block_offset (ms ! 0) = align8 hlen"
  proof
    assume "ms \<noteq> []"
    with lms have z: "0 < length sch" by auto
    with lc have "comps \<noteq> []" by auto
    then have "offs ! 0 = align8 hlen" unfolding offs_def by (rule plan_offsets_nth_0)
    with off [OF z] show "block_offset (ms ! 0) = align8 hlen" by simp
  qed
  have a3: "\<forall>i. Suc i < length ms \<longrightarrow>
      block_offset (ms ! Suc i) = align8 (block_offset (ms ! i) + compressed_size (ms ! i))"
  proof (intro allI impI)
    fix i assume "Suc i < length ms"
    with lms have s: "Suc i < length sch" and i: "i < length sch" by simp_all
    from s lc have "Suc i < length comps" by simp
    then have "offs ! Suc i = align8 (offs ! i + length (comps ! i))"
      unfolding offs_def by (rule plan_offsets_nth_Suc)
    with off [OF s] off [OF i] cs [OF i]
    show "block_offset (ms ! Suc i) = align8 (block_offset (ms ! i) + compressed_size (ms ! i))"
      by simp
  qed
  have a4: "\<forall>i < length ms.
      \<exists>ub. build_uncompressed_block ext (snd (sch ! i)) (cols ! i) = Inr ub \<and>
        compressed_size (ms ! i) = length (zlib_compress ext ub) \<and>
        take (compressed_size (ms ! i)) (drop (block_offset (ms ! i)) file) = zlib_compress ext ub"
  proof (intro allI impI)
    fix i assume "i < length ms"
    with lms have i: "i < length sch" by simp
    with lu have c: "comps ! i = zlib_compress ext (ubs ! i)" by (simp add: comps_def)
    have "take (length (comps ! i)) (drop (offs ! i) file) = comps ! i"
      unfolding c unfolding offs_def comps_def using bl i by blast
    then have t: "take (compressed_size (ms ! i)) (drop (block_offset (ms ! i)) file) =
        zlib_compress ext (ubs ! i)"
      unfolding off [OF i] cs [OF i] unfolding c .
    have l: "compressed_size (ms ! i) = length (zlib_compress ext (ubs ! i))"
      unfolding cs [OF i] c ..
    from bu i have "build_uncompressed_block ext (snd (sch ! i)) (cols ! i) = Inr (ubs ! i)"
      by blast
    with l t show "\<exists>ub. build_uncompressed_block ext (snd (sch ! i)) (cols ! i) = Inr ub \<and>
        compressed_size (ms ! i) = length (zlib_compress ext ub) \<and>
        take (compressed_size (ms ! i)) (drop (block_offset (ms ! i)) file) = zlib_compress ext ub"
      by blast
  qed
  show ?thesis
    apply (rule exI [of _ "\<lparr>path = file, schema = sch', num_rows = nrows,
        num_columns = length sch, columns = ms\<rparr>"])
    unfolding hlen_def [symmetric]
    using ph' lms a1 a2 gap a3 a4
    by simp
qed


lemma example_names: "\<forall>cm \<in> set example_schema. is_str (fst cm)"
  by (simp add: example_schema_def is_str_def)

lemma example_json:
  "is_str (json_dumps example_ext example_schema)"
  "json_loads example_ext (json_dumps example_ext example_schema) = Some []"
  by (simp_all add: example_ext_def is_str_def)

lemma example_header_length:
  "header_length (utf8_encode (json_dumps example_ext example_schema)) example_schema = 102"
  by (simp add: header_length_def example_ext_def example_schema_def utf8_encode_def)

theorem block_offsets_aligned_witness:
  "write_cfile example_ext example_schema [''a'', ''s''] example_columns = Inr example_file \<and>
   parse_header example_ext example_file = Inr example_reader \<and>
   length (columns example_reader) = length example_schema \<and>
   block_offset (columns example_reader ! 0) mod 8 = 0 \<and>
   block_offset (columns example_reader ! 1) mod 8 = 0 \<and>
   block_offset (columns example_reader ! 0) = align8 102 \<and>
   take (align8 102 - 102) (drop 102 example_file) = replicate (align8 102 - 102) 0 \<and>
   block_offset (columns example_reader ! 1) =
     align8 (block_offset (columns example_reader ! 0) +
       compressed_size (columns example_reader ! 0)) \<and>
   take (compressed_size (columns example_reader ! 1))
     (drop (block_offset (columns example_reader ! 1)) example_file) =
     [0, 0, 0, 0, 2, 0, 0, 0, 2, 0, 0, 0, 104, 105]"
proof -
  from block_offsets_aligned [OF example_write example_names example_json]
  obtain rd where rd: "parse_header example_ext example_file = Inr rd"
    and l: "length (columns rd) = length example_schema"
    and a: "\<forall>c \<in> set (columns rd). block_offset c mod 8 = 0"
    and f: "columns rd \<noteq> [] \<longrightarrow> block_offset (columns rd ! 0) = align8 102"
    and g: "take (align8 102 - 102) (drop 102 example_file) = replicate (align8 102 - 102) 0"
    and s: "\<forall>i. Suc i < length (columns rd) \<longrightarrow>
        block_offset (columns rd ! Suc i) =
          align8 (block_offset (columns rd ! i) + compressed_size (columns rd ! i))"
    and b: "\<forall>i < length (columns rd).
        \<exists>ub. build_uncompressed_block example_ext (snd (example_schema ! i)) (example_columns ! i) =
            Inr ub \<and>
          compressed_size (columns rd ! i) = length (zlib_compress example_ext ub) \<and>
          take (compressed_size (columns rd ! i)) (drop (block_offset (columns rd ! i)) example_file) =
            zlib_compress example_ext ub"
    unfolding example_header_length by blast
  from rd example_parse have e: "rd = example_reader" by simp
  have n: "length (columns example_reader) = 2" by (simp add: example_reader_def)
  from a have "block_offset (columns rd ! 0) mod 8 = 0" "block_offset (columns rd ! 1) mod 8 = 0"
    unfolding e using n by (simp_all add: all_set_conv_all_nth)
  moreover from f have "block_offset (columns rd ! 0) = align8 102"
    unfolding e using n by auto
  moreover from s [rule_format, of 0] have "block_offset (columns rd ! 1) =
      align8 (block_offset (columns rd ! 0) + compressed_size (columns rd ! 0))"
    unfolding e using n by simp
  moreover have "take (compressed_size (columns rd ! 1))
      (drop (block_offset (columns rd ! 1)) example_file) =
      [0, 0, 0, 0, 2, 0, 0, 0, 2, 0, 0, 0, 104, 105]"
  proof -
    have "1 < length (columns rd)" unfolding e using n by simp
    from b [rule_format, OF this] obtain ub where
      u: "build_uncompressed_block example_ext (snd (example_schema ! 1)) (example_columns ! 1) =
        Inr ub"
      and t: "take (compressed_size (columns rd ! 1))
        (drop (block_offset (columns rd ! 1)) example_file) = zlib_compress example_ext ub"
      by blast
    from u have "ub = [0, 0, 0, 0, 2, 0, 0, 0, 2, 0, 0, 0, 104, 105]"
      by (simp add: example_schema_def example_columns_def example_blocks)
    with t show ?thesis by (simp add: example_ext_def)
  qed
  ultimately show ?thesis
    using example_write example_parse l g unfolding e by simp
qed


subsection \<open>Rows built from columns\<close>

lemma map_result_Inl: "map_result f xs = Inl e \<Longrightarrow> \<exists>x \<in> set xs. f x = Inl e"
proof (induction xs)
  case Nil
  then show ?case by simp
next
  case (Cons a xs)
  then show ?case
    by (cases "f a"; cases "map_result f xs") auto
qed

lemma map_result_total:
  "\<forall>x \<in> set xs. \<exists>y. f x = Inr y \<Longrightarrow> \<exists>ys. map_result f xs = Inr ys"
proof (induction xs)
  case Nil
  then show ?case by simp
next
  case (Cons a xs)
  then obtain y ys where "f a = Inr y" "map_result f xs = Inr ys" by auto
  then show ?case by simp
qed

lemma build_row_Inl: "build_row i kvs r = Inl e \<Longrightarrow> e = IndexError"
proof (induction kvs arbitrary: r)
  case Nil
  then show ?case by simp
next
  case (Cons kv kvs)
  obtain k vs where kv: "kv = (k, vs)" by (cases kv)
  show ?case
  proof (cases "i < length vs")
    case True
    with Cons.prems kv have "build_row i kvs (AList.update k (vs ! i) r) = Inl e"
      by (simp add: nth_result_def)
    then show ?thesis by (rule Cons.IH)
  next
    case False
    with Cons.prems kv show ?thesis by (simp add: nth_result_def)
  qed
qed

lemma build_row_Inr:
  assumes "build_row i kvs r = Inr row" and "\<forall>(k, vs) \<in> set kvs. vs = D k"
  shows "(\<forall>(k, vs) \<in> set kvs. i < length vs) \<and>
     map_of row n = (if n \<in> fst ` set kvs then Some (D n ! i) else map_of r n)"
  using assms
proof (induction kvs arbitrary: r)
  case Nil
  then show ?case by simp
next
  case (Cons kv kvs)
  obtain k vs where kv: "kv = (k, vs)" by (cases kv)
  from Cons.prems(2) kv have vs: "vs = D k" and rest: "\<forall>(k, vs) \<in> set kvs. vs = D k"
    by simp_all
  from Cons.prems(1) kv have i: "i < length vs"
    by (auto simp: nth_result_def split: if_splits)
  with Cons.prems(1) kv have b: "build_row i kvs (AList.update k (vs ! i) r) = Inr row"
    by (simp add: nth_result_def)
  from Cons.IH [OF b rest]
  have a: "\<forall>(k, vs) \<in> set kvs. i < length vs"
    and m: "map_of row n =
      (if n \<in> fst ` set kvs then Some (D n ! i) else map_of (AList.update k (vs ! i) r) n)"
    by simp_all
  have "map_of row n = (if n \<in> fst ` set (kv # kvs) then Some (D n ! i) else map_of r n)"
    unfolding m using vs kv by (simp add: update_conv')
  with a i kv show ?case by simp
qed

lemma build_row_total:
  "\<forall>(k, vs) \<in> set kvs. i < length vs \<Longrightarrow> \<exists>row. build_row i kvs r = Inr row"
proof (induction kvs arbitrary: r)
  case Nil
  then show ?case by simp
next
  case (Cons kv kvs)
  obtain k vs where kv: "kv = (k, vs)" by (cases kv)
  with Cons.prems have "i < length vs" "\<forall>(k, vs) \<in> set kvs. i < length vs" by simp_all
  with Cons.IH [of "AList.update k (vs ! i) r"] kv show ?case
    by (simp add: nth_result_def)
qed

text \<open>The values that \<open>read_column\<close> returns for a name (nothing when it raises).\<close>

lemma read_all_Inr:
  assumes "read_all ext rd = Inr rows"
  shows "length rows = num_rows rd"
    and "c \<in> set (columns rd) \<Longrightarrow>
      \<exists>vals. read_column ext rd (name c) = Inr vals \<and>
        (\<forall>i < num_rows rd. i < length vals \<and> map_of (rows ! i) (name c) = Some (vals ! i))"
    and "i < num_rows rd \<Longrightarrow> n \<notin> name ` set (columns rd) \<Longrightarrow> map_of (rows ! i) n = None"
proof -
  define names where "names = map name (columns rd)"
  define D where "D k = (case read_column ext rd k of Inr vs \<Rightarrow> vs | Inl _ \<Rightarrow> [])" for k
  from assms obtain col_data where
    cd: "map_result (read_column ext rd) names = Inr col_data"
    and rw: "map_result (\<lambda>i. build_row i (zip names col_data) []) [0 ..< num_rows rd] = Inr rows"
    by (auto simp: read_all_def Let_def bindr_eq_Inr names_def)
  from cd have la: "list_all2 (\<lambda>k vs. read_column ext rd k = Inr vs) names col_data"
    by (simp add: map_result_Inr)
  then have lcd: "length col_data = length names" by (simp add: list_all2_lengthD)
  have dep: "\<forall>(k, vs) \<in> set (zip names col_data). vs = D k"
  proof -
    have "vs = D k" if "(k, vs) \<in> set (zip names col_data)" for k vs
    proof -
      from that obtain j where "j < length names" "j < length col_data"
        "k = names ! j" "vs = col_data ! j"
        by (auto simp: in_set_zip)
      with la have "read_column ext rd k = Inr vs" by (simp add: list_all2_conv_all_nth)
      then show ?thesis by (simp add: D_def)
    qed
    then show ?thesis by auto
  qed
  have keys: "fst ` set (zip names col_data) = set names"
    using lcd by (simp add: map_fst_zip flip: set_map)
  from rw have lr: "list_all2 (\<lambda>i row. build_row i (zip names col_data) [] = Inr row)
      [0 ..< num_rows rd] rows"
    by (simp add: map_result_Inr)
  then show len: "length rows = num_rows rd"
    by (auto dest: list_all2_lengthD)
  have row: "build_row i (zip names col_data) [] = Inr (rows ! i)" if "i < num_rows rd" for i
    using lr that by (simp add: list_all2_conv_all_nth)
  show "\<exists>vals. read_column ext rd (name c) = Inr vals \<and>
        (\<forall>i < num_rows rd. i < length vals \<and> map_of (rows ! i) (name c) = Some (vals ! i))"
    if c: "c \<in> set (columns rd)"
  proof -
    from c have n: "name c \<in> set names" by (simp add: names_def)
    then obtain j where j: "j < length names" "names ! j = name c"
      by (auto simp: in_set_conv_nth)
    with la have rc: "read_column ext rd (name c) = Inr (col_data ! j)"
      by (auto simp: list_all2_conv_all_nth)
    then have d: "D (name c) = col_data ! j" by (simp add: D_def)
    have mem: "(name c, col_data ! j) \<in> set (zip names col_data)"
      using j lcd by (auto simp: in_set_zip)
    have "i < length (col_data ! j) \<and> map_of (rows ! i) (name c) = Some (col_data ! j ! i)"
      if i: "i < num_rows rd" for i
    proof -
      from build_row_Inr [OF row [OF i] dep, of "name c"]
      have a: "\<forall>(k, vs) \<in> set (zip names col_data). i < length vs"
        and m: "map_of (rows ! i) (name c) =
          (if name c \<in> fst ` set (zip names col_data) then Some (D (name c) ! i) else map_of [] (name c))"
        by simp_all
      from a mem have "i < length (col_data ! j)" by auto
      moreover from m n have "map_of (rows ! i) (name c) = Some (col_data ! j ! i)"
        unfolding keys d by simp
      ultimately show ?thesis by simp
    qed
    with rc show ?thesis by blast
  qed
  show "map_of (rows ! i) n = None" if i: "i < num_rows rd" and n: "n \<notin> name ` set (columns rd)"
  proof -
    from n have "n \<notin> set names" by (simp add: names_def)
    with build_row_Inr [OF row [OF i] dep, of n] show ?thesis
      unfolding keys by simp
  qed
qed


lemma upt_2: "[0 ..< 2] = [0, 1]" "[0 ..< 3] = [0, 1, 2]" "[0 ..< Suc (Suc 0)] = [0, Suc 0]"
  by (simp_all add: upt_rec)

lemma surplus_parse: "parse_header example_ext surplus_file = Inr surplus_reader"
proof -
  have e: "parse_entry (1 # 0 # 97 # 0 # 72 # 0 # 0 # 0 # 0 # 0 # 0 # 0 # 8 # 0 # 0 # 0 # 0 # 0 # 0 # 0 #
      8 # 0 # 0 # 0 # 0 # 0 # 0 # 0 # 2 # 0 # 0 # 0 # 0 # 0 # 0 # 0 # rest) =
   Inr (\<lparr>name = ''a'', dtype = 0, block_offset = 72, compressed_size = 8,
          uncompressed_size = 8, num_values = 2\<rparr>, rest)" for rest
    by (simp add: parse_entry_def fh_read_def unpack_unsigned_def utf8_decode_def char_of_byte_def
        Let_def char_of_examples)
  show ?thesis
    unfolding parse_header_def surplus_file_def
    by (simp add: fh_read_def rstrip_zero_def utf8_encode_def byte_of_char_def
        unpack_unsigned_def utf8_decode_def Let_def e surplus_reader_def surplus_file_def
        example_ext_def [THEN arg_cong, of json_loads])
qed

lemma surplus_column:
  "read_column example_ext surplus_reader ''a'' = Inr [PyInt 1, PyInt 2]"
  by (simp add: read_column_def read_column_uncompressed_def surplus_reader_def surplus_file_def
      decode_values_def DT_INT32_def unpack_from_def signed32_def upt_2
      example_ext_def [THEN arg_cong, of zlib_decompress])

lemma surplus_rows: "read_all example_ext surplus_reader = Inr [[(''a'', PyInt 1)]]"
proof -
  have "map name (columns surplus_reader) = [''a'']" "num_rows surplus_reader = 1"
    by (simp_all add: surplus_reader_def)
  then show ?thesis
    by (simp add: read_all_def surplus_column nth_result_def)
qed

lemma example_column_a: "read_column example_ext example_reader ''a'' = Inr [PyInt 7, PyInt 0]"
  by (simp add: read_column_def read_column_uncompressed_def example_reader_def example_file_def
      decode_values_def DT_INT32_def unpack_from_def signed32_def upt_2
      example_ext_def [THEN arg_cong, of zlib_decompress])

lemma example_column_s: "read_column example_ext example_reader ''s'' = Inr [PyStr ''hi'', PyStr '''']"
  by (simp add: read_column_def read_column_uncompressed_def example_reader_def example_file_def
      decode_values_def DT_INT32_def DT_FLOAT64_def DT_STRING_def unpack_from_def upt_2
      utf8_decode_def char_of_byte_def char_of_examples
      example_ext_def [THEN arg_cong, of zlib_decompress])

lemma example_rows:
  "read_all example_ext example_reader =
     Inr [[(''a'', PyInt 7), (''s'', PyStr ''hi'')], [(''a'', PyInt 0), (''s'', PyStr '''')]]"
proof -
  have "map name (columns example_reader) = [''a'', ''s'']" "num_rows example_reader = 2"
    by (simp_all add: example_reader_def)
  then show ?thesis
    by (simp add: read_all_def example_column_a example_column_s nth_result_def upt_2)
qed


end
